theory Spec2Isabelle
  imports Main "HOL-Library.Monad_Syntax" "HOL-Library.Log_Nat"
begin

section \<open>The data model of \<^verbatim>\<open>hashmap.h\<close>\<close>

text \<open>
  \<^verbatim>\<open>HashMap<Key, Value, Hash>\<close> keeps its entries in a \<^verbatim>\<open>std::list<BucketItem>\<close> and
  its probe table in a \<^verbatim>\<open>std::vector\<close> of iterators into that list.  A list iterator
  is the address of a list node, or \<^verbatim>\<open>items_.end()\<close>.  The list is modelled as the
  sequence of its nodes, each with its address; an iterator is an \<open>addr option\<close>, with
  \<open>None\<close> for \<^verbatim>\<open>end()\<close>.  The addresses are those of one heap: two maps share a node
  if both hold a node at the same address.  The members \<^verbatim>\<open>hasher_\<close>, \<^verbatim>\<open>items_\<close>, \<^verbatim>\<open>table_\<close> lose their
  trailing underscore.

  Sizes, indices and displacements are \<^verbatim>\<open>size_t\<close> in the source.  They are natural
  numbers here: every one of them is bounded by the number of slots of an allocated
  vector (or by twice that number, or by the square of a trial divisor not much above
  its root), which is far below \<open>2^64\<close>, so no operation of the source wraps.

  Every operation returns an \<open>option\<close>: \<open>None\<close> stands for a call without a defined
  result, that is a loop that never ends, or undefined behaviour of the source
  (dereferencing \<^verbatim>\<open>end()\<close> or a dangling iterator, indexing the vector out of range,
  the remainder by an empty table's size).
\<close>

type_synonym addr = nat

record ('k, 'v) BucketItem =
  data :: "'k \<times> 'v"
  distance_to_ideal :: nat
  id_in_table :: nat

type_synonym ListIterator = "addr option"

record ('k, 'v) HashMap =
  hasher :: "'k \<Rightarrow> nat"
  items :: "(addr \<times> ('k, 'v) BucketItem) list"
  table :: "ListIterator list"

definition START_BUCKET_COUNT :: nat where
  "START_BUCKET_COUNT = 37"

text \<open>\<^verbatim>\<open>it->...\<close> for a list iterator: the node at that address, if the list has one.\<close>

definition deref :: "('k, 'v) HashMap \<Rightarrow> addr \<Rightarrow> ('k, 'v) BucketItem option" where
  "deref m h = map_of (items m) h"

text \<open>An assignment to a field of the node at address \<open>h\<close>.\<close>

definition upd_node ::
  "addr \<Rightarrow> (('k, 'v) BucketItem \<Rightarrow> ('k, 'v) BucketItem) \<Rightarrow> ('k, 'v) HashMap \<Rightarrow> ('k, 'v) HashMap" where
  "upd_node h f m = m\<lparr>items := map (\<lambda>(a, it). if a = h then (a, f it) else (a, it)) (items m)\<rparr>"

text \<open>
  The allocator.  \<^verbatim>\<open>emplace\<close> gets the address of a new node, which is the address of no
  live node: of none of the list itself, and of none that another live object holds.
  \<open>used\<close> lists the addresses of those other nodes; it is \<open>[]\<close> where the map is the only
  object in sight.
\<close>

definition new_addr :: "addr list \<Rightarrow> (addr \<times> 'a) list \<Rightarrow> addr" where
  "new_addr used xs = Suc (fold max (used @ map fst xs) 0)"

subsection \<open>Observers\<close>

definition size_hm :: "('k, 'v) HashMap \<Rightarrow> nat" where
  "size_hm m = length (items m)"

definition empty_hm :: "('k, 'v) HashMap \<Rightarrow> bool" where
  "empty_hm m = (size_hm m = 0)"

text \<open>Iterating from \<^verbatim>\<open>begin()\<close> to \<^verbatim>\<open>end()\<close> and dereferencing: the \<^verbatim>\<open>data\<close> of each node.\<close>

definition to_list :: "('k, 'v) HashMap \<Rightarrow> ('k \<times> 'v) list" where
  "to_list m = map (\<lambda>(a, it). data it) (items m)"

definition bucket_count :: "('k, 'v) HashMap \<Rightarrow> nat" where
  "bucket_count m = length (table m)"

subsection \<open>Constructor\<close>

definition HashMap_init :: "('k \<Rightarrow> nat) \<Rightarrow> ('k, 'v) HashMap" where
  "HashMap_init hash = \<lparr>hasher = hash, items = [], table = replicate START_BUCKET_COUNT None\<rparr>"

subsection \<open>\<^verbatim>\<open>find\<close>\<close>

partial_function (option) find_loop ::
  "('k, 'v) HashMap \<Rightarrow> 'k \<Rightarrow> nat \<Rightarrow> ListIterator option" where
  "find_loop m key hash =
     (if length (table m) \<le> hash then None
      else case table m ! hash of
        None \<Rightarrow> Some None
      | Some h \<Rightarrow>
          (case deref m h of
             None \<Rightarrow> None
           | Some it \<Rightarrow>
               if fst (data it) = key then Some (Some h)
               else find_loop m key ((hash + 1) mod length (table m))))"

declare find_loop.simps [code]

definition find_hm :: "('k, 'v) HashMap \<Rightarrow> 'k \<Rightarrow> ListIterator option" where
  "find_hm m key = find_loop m key (hasher m key mod length (table m))"

subsection \<open>The growth test: \<^verbatim>\<open>static_cast<double>(size() + 1) / table_.size() < MAX_LOAD_FACTOR\<close>\<close>

text \<open>
  The test is a comparison of floating-point numbers.  A binary floating-point format
  with \<open>p\<close> significant bits holds the rationals \<open>k * 2^e\<close> with \<open>2^(p-1) \<le> k < 2^p\<close>
  (its exponent range is left out: every number here lies between \<open>2^-64\<close> and \<open>2^64\<close>).
  Conversions and the division round to the nearest such number, ties to the even
  significand.
\<close>

definition round_half_even :: "rat \<Rightarrow> int" where
  "round_half_even x =
     (let f = \<lfloor>x\<rfloor>; r = x - of_int f
      in if r < 1 / 2 then f else if 1 / 2 < r then f + 1 else if even f then f else f + 1)"

text \<open>The \<open>e\<close> with \<open>2^e \<le> x < 2^(e+1)\<close>, for \<open>x > 0\<close>.\<close>

definition binade :: "rat \<Rightarrow> int" where
  "binade x =
     (let (a, b) = quotient_of x;
          e0 = int (floorlog 2 (nat a)) - int (floorlog 2 (nat b))
      in if x < 2 powi e0 then e0 - 1 else e0)"

definition round_to :: "nat \<Rightarrow> rat \<Rightarrow> rat" where
  "round_to p x =
     (if x \<le> 0 then 0
      else let u = 2 powi (binade x - int p + 1)
           in of_int (round_half_even (x / u)) * u)"

definition to_double :: "rat \<Rightarrow> rat" where
  "to_double = round_to 53"

definition to_float :: "rat \<Rightarrow> rat" where
  "to_float = round_to 24"

text \<open>\<^verbatim>\<open>inline static const float MAX_LOAD_FACTOR = 0.6;\<close> The literal is a double.\<close>

definition MAX_LOAD_FACTOR :: rat where
  "MAX_LOAD_FACTOR = to_float (to_double (6 / 10))"

text \<open>
  The test of \<^verbatim>\<open>rehash_if_needed\<close>, on the number of entries and the number of slots.
  With no slot the quotient is infinite, which is not below the constant.
\<close>

definition load_below_max :: "nat \<Rightarrow> nat \<Rightarrow> bool" where
  "load_below_max sz n =
     (n \<noteq> 0 \<and> to_double (to_double (of_nat (sz + 1)) / to_double (of_nat n)) < MAX_LOAD_FACTOR)"

subsection \<open>The search for the next table size\<close>

text \<open>The inner loop: trial division from \<open>dv\<close> on; the result is the flag \<^verbatim>\<open>prime\<close>.\<close>

function trial_division :: "nat \<Rightarrow> nat \<Rightarrow> bool" where
  "trial_division min_bucket_count dv =
     (if dv * dv \<le> min_bucket_count
      then (if min_bucket_count mod dv = 0 then False
            else trial_division min_bucket_count (dv + 1))
      else True)"
  by pat_completeness auto
termination
  by (relation "measure (\<lambda>(c, d). Suc c - d * d)") (auto simp: algebra_simps)

declare trial_division.simps [simp del]

text \<open>The outer loop \<^verbatim>\<open>for ( ; ; ++min_bucket_count)\<close>, left at the first candidate that passes.\<close>

partial_function (option) find_bucket_count :: "nat \<Rightarrow> nat option" where
  "find_bucket_count min_bucket_count =
     (if trial_division min_bucket_count 2 then Some min_bucket_count
      else find_bucket_count (min_bucket_count + 1))"

declare find_bucket_count.simps [code]

subsection \<open>\<^verbatim>\<open>insert\<close> and \<^verbatim>\<open>rehash_if_needed\<close>\<close>

text \<open>
  The Robin Hood loop of \<^verbatim>\<open>insert\<close>.  \<open>list_iterator\<close> is the node being placed and
  \<open>hash\<close> the slot under inspection.  \<^verbatim>\<open>std::swap(list_iterator, table_[hash])\<close> puts
  the node into the slot and goes on with the slot's previous occupant.
\<close>

partial_function (option) insert_loop ::
  "('k, 'v) HashMap \<Rightarrow> addr \<Rightarrow> nat \<Rightarrow> ('k, 'v) HashMap option" where
  "insert_loop m list_iterator hash =
     (if length (table m) \<le> hash then None
      else case table m ! hash of
        None \<Rightarrow>
          Some (upd_node list_iterator (id_in_table_update (\<lambda>_. hash))
                  (m\<lparr>table := (table m)[hash := Some list_iterator]\<rparr>))
      | Some occupant \<Rightarrow>
          (case deref m occupant of
             None \<Rightarrow> None
           | Some occ \<Rightarrow>
               (case deref m list_iterator of
                  None \<Rightarrow> None
                | Some cur \<Rightarrow>
                    if distance_to_ideal occ < distance_to_ideal cur
                    then
                      let m1 = m\<lparr>table := (table m)[hash := Some list_iterator]\<rparr>;
                          m2 = upd_node list_iterator (id_in_table_update (\<lambda>_. hash)) m1;
                          m3 = upd_node occupant (distance_to_ideal_update Suc) m2
                      in insert_loop m3 occupant ((hash + 1) mod length (table m))
                    else
                      insert_loop (upd_node list_iterator (distance_to_ideal_update Suc) m)
                        list_iterator ((hash + 1) mod length (table m)))))"

declare insert_loop.simps [code]

text \<open>Running a fallible step over a list, as a range-based \<^verbatim>\<open>for\<close> does.\<close>

fun for_each :: "('a \<Rightarrow> 's \<Rightarrow> 's option) \<Rightarrow> 'a list \<Rightarrow> 's \<Rightarrow> 's option" where
  "for_each f [] s = Some s"
| "for_each f (x # xs) s = Option.bind (f x s) (for_each f xs)"

lemma for_each_mono [partial_function_mono]:
  assumes "\<And>x s. mono_option (\<lambda>g. F g x s)"
  shows "mono_option (\<lambda>g. for_each (F g) xs s)"
proof (induction xs arbitrary: s)
  case Nil
  show ?case by (simp add: option.const_mono)
next
  case (Cons x xs)
  show ?case
    unfolding for_each.simps
    by (rule bind_mono) (rule assms, rule Cons.IH)
qed

text \<open>
  \<^verbatim>\<open>emplace\<close> at the end of the list, then the loop from the key's ideal slot: the part of
  \<^verbatim>\<open>insert\<close> after the call of \<^verbatim>\<open>rehash_if_needed\<close>.
\<close>

definition emplace_and_probe ::
  "addr list \<Rightarrow> ('k, 'v) HashMap \<Rightarrow> 'k \<times> 'v \<Rightarrow> ('k, 'v) HashMap option" where
  "emplace_and_probe used m x =
     (let list_iterator = new_addr used (items m);
          m1 = m\<lparr>items := items m @
                 [(list_iterator, \<lparr>data = x, distance_to_ideal = 0, id_in_table = 0\<rparr>)]\<rparr>;
          hash = hasher m1 (fst x) mod length (table m1)
      in insert_loop m1 list_iterator hash)"

text \<open>
  \<^verbatim>\<open>insert\<close> and \<^verbatim>\<open>rehash_if_needed\<close> call each other.  \<open>insert_among\<close> is \<^verbatim>\<open>insert\<close> next to
  the live nodes \<open>used\<close> of other objects; it has the body of \<^verbatim>\<open>rehash_if_needed\<close> in the
  place of its call.  \<open>rehash_if_needed\<close> is defined from it below, and
  \<open>insert_among_unfold\<close> gives \<^verbatim>\<open>insert\<close> as the source has it.  The nodes of
  \<^verbatim>\<open>old_items\<close> live until \<^verbatim>\<open>rehash_if_needed\<close> returns, so the insertions of a rehash
  allocate next to them.
\<close>

partial_function (option) insert_among ::
  "addr list \<Rightarrow> ('k, 'v) HashMap \<Rightarrow> 'k \<times> 'v \<Rightarrow> ('k, 'v) HashMap option" where
  "insert_among used m x =
     Option.bind (find_hm m (fst x)) (\<lambda>it.
       if it \<noteq> None then Some m
       else
         Option.bind
           (if load_below_max (size_hm m) (length (table m)) then Some m
            else
              Option.bind (find_bucket_count (length (table m) * 2)) (\<lambda>min_bucket_count.
                for_each (\<lambda>item m'. insert_among (used @ map fst (items m)) m' (data item))
                  (map snd (items m))
                  (m\<lparr>items := [], table := replicate min_bucket_count None\<rparr>)))
           (\<lambda>m1. emplace_and_probe used m1 x))"

declare insert_among.simps [code]

definition rehash_if_needed :: "addr list \<Rightarrow> ('k, 'v) HashMap \<Rightarrow> ('k, 'v) HashMap option" where
  "rehash_if_needed used m =
     (if load_below_max (size_hm m) (length (table m)) then Some m
      else
        Option.bind (find_bucket_count (length (table m) * 2)) (\<lambda>min_bucket_count.
          let old_items = items m;
              m1 = m\<lparr>items := [], table := replicate min_bucket_count None\<rparr>
          in for_each (\<lambda>item m'. insert_among (used @ map fst old_items) m' (data item))
               (map snd old_items) m1))"

text \<open>\<^verbatim>\<open>insert\<close> on a map that is the only object in sight.\<close>

definition insert_hm :: "('k, 'v) HashMap \<Rightarrow> 'k \<times> 'v \<Rightarrow> ('k, 'v) HashMap option" where
  "insert_hm m x = insert_among [] m x"

subsection \<open>\<^verbatim>\<open>erase\<close>\<close>

text \<open>The backward-shift loop of \<^verbatim>\<open>erase(common_iterator)\<close>.\<close>

partial_function (option) erase_loop ::
  "('k, 'v) HashMap \<Rightarrow> nat \<Rightarrow> nat \<Rightarrow> ('k, 'v) HashMap option" where
  "erase_loop m hash next_hash =
     (if length (table m) \<le> hash \<or> length (table m) \<le> next_hash then None
      else case table m ! next_hash of
        None \<Rightarrow> Some m
      | Some h \<Rightarrow>
          (case deref m h of
             None \<Rightarrow> None
           | Some it \<Rightarrow>
               if 0 < distance_to_ideal it
               then
                 let m1 = m\<lparr>table := (table m)[hash := table m ! next_hash,
                                               next_hash := table m ! hash]\<rparr>
                 in (case table m1 ! hash of
                       None \<Rightarrow> None
                     | Some h' \<Rightarrow>
                         let m2 = upd_node h' (id_in_table_update (\<lambda>_. hash)) m1;
                             m3 = upd_node h' (distance_to_ideal_update (\<lambda>d. d - 1)) m2
                         in erase_loop m3 next_hash ((next_hash + 1) mod length (table m)))
               else Some m))"

declare erase_loop.simps [code]

definition erase_it :: "('k, 'v) HashMap \<Rightarrow> ListIterator \<Rightarrow> ('k, 'v) HashMap option" where
  "erase_it m iterator =
     (case iterator of
        None \<Rightarrow> None
      | Some inner_iter \<Rightarrow>
          (case deref m inner_iter of
             None \<Rightarrow> None
           | Some it \<Rightarrow>
               let hash = id_in_table it;
                   m1 = m\<lparr>items := filter (\<lambda>(a, _). a \<noteq> inner_iter) (items m)\<rparr>
               in if length (table m1) \<le> hash then None
                  else
                    let m2 = m1\<lparr>table := (table m1)[hash := None]\<rparr>;
                        next_hash = (hash + 1) mod length (table m2)
                    in erase_loop m2 hash next_hash))"

definition erase :: "('k, 'v) HashMap \<Rightarrow> 'k \<Rightarrow> ('k, 'v) HashMap option" where
  "erase m key =
     Option.bind (find_hm m key) (\<lambda>it. if it \<noteq> None then erase_it m it else Some m)"

subsection \<open>\<^verbatim>\<open>operator[]\<close>, \<^verbatim>\<open>at\<close>, \<^verbatim>\<open>clear\<close>\<close>

text \<open>
  A \<^verbatim>\<open>Value&\<close> into the map is the address of the node that holds the value.
  \<open>read_ref\<close> and \<open>write_ref\<close> are a read and an assignment through such a reference.
  The assignment writes the node at that address: \<open>write_ref m r v\<close> is what becomes of a
  map \<open>m\<close>, which changes where it holds that node and is as before where it does not.
\<close>

definition read_ref :: "('k, 'v) HashMap \<Rightarrow> addr \<Rightarrow> 'v option" where
  "read_ref m r = map_option (\<lambda>it. snd (data it)) (deref m r)"

definition write_ref :: "('k, 'v) HashMap \<Rightarrow> addr \<Rightarrow> 'v \<Rightarrow> ('k, 'v) HashMap" where
  "write_ref m r v = upd_node r (data_update (\<lambda>(k, _). (k, v))) m"

text \<open>\<^verbatim>\<open>operator[]\<close>; \<open>dflt\<close> is \<^verbatim>\<open>Value{}\<close>.  It returns the reference and the map.\<close>

definition index_hm ::
  "'v \<Rightarrow> ('k, 'v) HashMap \<Rightarrow> 'k \<Rightarrow> (addr \<times> ('k, 'v) HashMap) option" where
  "index_hm dflt m key =
     Option.bind (insert_hm m (key, dflt)) (\<lambda>m1.
       Option.bind (find_hm m1 key) (\<lambda>it.
         case it of None \<Rightarrow> None | Some r \<Rightarrow> Some (r, m1)))"

datatype error = out_of_range

definition at_hm :: "('k, 'v) HashMap \<Rightarrow> 'k \<Rightarrow> (error + addr) option" where
  "at_hm m key =
     Option.bind (find_hm m key) (\<lambda>it.
       case it of None \<Rightarrow> Some (Inl out_of_range) | Some r \<Rightarrow> Some (Inr r))"

text \<open>\<^verbatim>\<open>clear\<close> steps to the next node before it erases the current one.\<close>

definition clear :: "('k, 'v) HashMap \<Rightarrow> ('k, 'v) HashMap option" where
  "clear m = for_each (\<lambda>temp_it m'. erase_it m' (Some temp_it)) (map fst (items m)) m"

subsection \<open>Construction from a range, copy construction, copy assignment\<close>

definition HashMap_range :: "('k \<Rightarrow> nat) \<Rightarrow> ('k \<times> 'v) list \<Rightarrow> ('k, 'v) HashMap option" where
  "HashMap_range hash xs = for_each (\<lambda>x m. insert_hm m x) xs (HashMap_init hash)"

text \<open>
  The copy constructor and \<^verbatim>\<open>operator=\<close> have two objects in sight: \<^verbatim>\<open>another\<close> is alive
  while its entries are inserted, so the insertions allocate next to its nodes.
\<close>

definition HashMap_copy :: "('k, 'v) HashMap \<Rightarrow> ('k, 'v) HashMap option" where
  "HashMap_copy another =
     for_each (\<lambda>node m. insert_among (map fst (items another)) m node) (to_list another)
       \<lparr>hasher = hasher another, items = [], table = replicate (length (table another)) None\<rparr>"

text \<open>
  \<^verbatim>\<open>operator=\<close>.  \<open>another = None\<close> stands for \<^verbatim>\<open>&another == this\<close>: the argument is the
  object itself.  Otherwise \<^verbatim>\<open>items_.clear()\<close> frees the nodes of \<^verbatim>\<open>this\<close> before the
  insertions.
\<close>

definition assign :: "('k, 'v) HashMap \<Rightarrow> ('k, 'v) HashMap option \<Rightarrow> ('k, 'v) HashMap option" where
  "assign this another_opt =
     (case another_opt of
        None \<Rightarrow> Some this
      | Some another \<Rightarrow>
          for_each (\<lambda>node m. insert_among (map fst (items another)) m node) (to_list another)
            (this\<lparr>hasher := hasher another, items := [],
                  table := replicate (length (table another)) None\<rparr>))"

section \<open>Invariants and the properties stated below\<close>

definition slot :: "('k, 'v) HashMap \<Rightarrow> nat \<Rightarrow> ('k, 'v) BucketItem option" where
  "slot m i = (case table m ! i of None \<Rightarrow> None | Some h \<Rightarrow> deref m h)"

definition dist_at :: "('k, 'v) HashMap \<Rightarrow> nat \<Rightarrow> nat option" where
  "dist_at m i = map_option distance_to_ideal (slot m i)"

definition robin_hood :: "nat \<Rightarrow> (nat \<Rightarrow> nat option) \<Rightarrow> bool" where
  "robin_hood n f =
     (\<forall>i<n. \<forall>d'. f (Suc i mod n) = Some d' \<longrightarrow> 0 < d' \<longrightarrow> (\<exists>d. f i = Some d \<and> d' \<le> Suc d))"

definition wf :: "('k, 'v) HashMap \<Rightarrow> addr option \<Rightarrow> bool" where
  "wf m hand =
     (distinct (map fst (items m)) \<and>
      (\<forall>i<length (table m). \<forall>h. table m ! i = Some h \<longrightarrow>
         Some h \<noteq> hand \<and>
         (\<exists>it. deref m h = Some it \<and> id_in_table it = i \<and>
            (hasher m (fst (data it)) + distance_to_ideal it) mod length (table m) = i)) \<and>
      (\<forall>h it. deref m h = Some it \<longrightarrow> Some h \<noteq> hand \<longrightarrow>
         id_in_table it < length (table m) \<and> table m ! id_in_table it = Some h) \<and>
      distinct (map fst (to_list m)))"

definition hand_ok :: "nat \<Rightarrow> (nat \<Rightarrow> nat option) \<Rightarrow> nat \<Rightarrow> nat \<Rightarrow> bool" where
  "hand_ok n f hash d =
     (\<forall>i<n. Suc i mod n = hash \<longrightarrow> 0 < d \<longrightarrow> (\<exists>d0. f i = Some d0 \<and> d \<le> Suc d0))"

definition place :: "('k, 'v) HashMap \<Rightarrow> addr \<Rightarrow> nat \<Rightarrow> ('k, 'v) HashMap" where
  "place m h hash =
     upd_node h (id_in_table_update (\<lambda>_. hash)) (m\<lparr>table := (table m)[hash := Some h]\<rparr>)"

definition probing :: "('k, 'v) HashMap \<Rightarrow> addr \<Rightarrow> nat \<Rightarrow> bool" where
  "probing m h hash =
     (hash < length (table m) \<and> wf m (Some h) \<and>
      robin_hood (length (table m)) (dist_at m) \<and>
      (\<exists>cur. deref m h = Some cur \<and>
         (hasher m (fst (data cur)) + distance_to_ideal cur) mod length (table m) = hash \<and>
         hand_ok (length (table m)) (dist_at m) hash (distance_to_ideal cur)))"

definition inv0 :: "('k, 'v) HashMap \<Rightarrow> bool" where
  "inv0 m = (wf m None \<and> robin_hood (length (table m)) (dist_at m))"

definition same_content :: "('k, 'v) HashMap \<Rightarrow> ('k, 'v) HashMap \<Rightarrow> bool" where
  "same_content m m' =
     (hasher m' = hasher m \<and> length (table m') = length (table m) \<and>
      to_list m' = to_list m \<and> map fst (items m') = map fst (items m))"

definition shift :: "('k, 'v) HashMap \<Rightarrow> nat \<Rightarrow> nat \<Rightarrow> addr \<Rightarrow> ('k, 'v) HashMap" where
  "shift m hash next_hash a =
     upd_node a (distance_to_ideal_update (\<lambda>d. d - 1))
       (upd_node a (id_in_table_update (\<lambda>_. hash))
          (m\<lparr>table := (table m)[hash := Some a, next_hash := None]\<rparr>))"

definition shifting :: "('k, 'v) HashMap \<Rightarrow> nat \<Rightarrow> bool" where
  "shifting m hash =
     (hash < length (table m) \<and> wf m None \<and> table m ! hash = None \<and>
      (\<exists>dh. robin_hood (length (table m)) ((dist_at m)(hash := Some dh))))"

definition unlink :: "('k, 'v) HashMap \<Rightarrow> addr \<Rightarrow> nat \<Rightarrow> ('k, 'v) HashMap" where
  "unlink m h hash =
     m\<lparr>items := filter (\<lambda>(a, _). a \<noteq> h) (items m), table := (table m)[hash := None]\<rparr>"

definition prime_nat :: "nat \<Rightarrow> bool" where
  "prime_nat p = (1 < p \<and> (\<forall>d. d dvd p \<longrightarrow> d = 1 \<or> d = p))"

definition invar :: "('k, 'v) HashMap \<Rightarrow> bool" where
  "invar m =
     (inv0 m \<and> START_BUCKET_COUNT \<le> length (table m) \<and> prime_nat (length (table m)) \<and>
      (items m = [] \<or> load_below_max (size_hm m - 1) (length (table m))))"

text \<open>
  The states that the public operations reach from a fresh map.  \<open>r_insert_among\<close> is an
  \<^verbatim>\<open>insert\<close> next to the live nodes of other objects, be it a call of \<^verbatim>\<open>insert\<close> or the one
  inside \<^verbatim>\<open>operator[]\<close> or inside the constructor from a range.
\<close>

inductive reachable :: "('k, 'v) HashMap \<Rightarrow> bool" where
  r_init: "reachable (HashMap_init hash)"
| r_insert: "reachable m \<Longrightarrow> insert_hm m x = Some m' \<Longrightarrow> reachable m'"
| r_insert_among: "reachable m \<Longrightarrow> insert_among used m x = Some m' \<Longrightarrow> reachable m'"
| r_erase: "reachable m \<Longrightarrow> erase m key = Some m' \<Longrightarrow> reachable m'"
| r_erase_it: "reachable m \<Longrightarrow> deref m h = Some it \<Longrightarrow> erase_it m (Some h) = Some m' \<Longrightarrow>
    reachable m'"
| r_index: "reachable m \<Longrightarrow> index_hm dflt m key = Some (r, m') \<Longrightarrow> reachable m'"
| r_write: "reachable m \<Longrightarrow> deref m r = Some it \<Longrightarrow> reachable (write_ref m r v)"
| r_clear: "reachable m \<Longrightarrow> clear m = Some m' \<Longrightarrow> reachable m'"
| r_copy: "reachable m \<Longrightarrow> HashMap_copy m = Some m' \<Longrightarrow> reachable m'"
| r_assign: "reachable m \<Longrightarrow> reachable another \<Longrightarrow> assign m (Some another) = Some m' \<Longrightarrow>
    reachable m'"
| r_assign_self: "reachable m \<Longrightarrow> assign m None = Some m' \<Longrightarrow> reachable m'"

definition bijection :: "('k, 'v) HashMap \<Rightarrow> bool" where
  "bijection m =
     ((\<forall>(h, it) \<in> set (items m).
         id_in_table it < length (table m) \<and> table m ! id_in_table it = Some h \<and>
         (\<forall>i<length (table m). table m ! i = Some h \<longrightarrow> i = id_in_table it)) \<and>
      (\<forall>i<length (table m). \<forall>h. table m ! i = Some h \<longrightarrow>
         (\<exists>!e. e \<in> set (items m) \<and> fst e = h)))"

fun probe_run :: "('k, 'v) HashMap \<Rightarrow> nat \<Rightarrow> nat \<Rightarrow> nat list" where
  "probe_run m i 0 = []"
| "probe_run m i (Suc fuel) =
     (case dist_at m i of
        None \<Rightarrow> []
      | Some d \<Rightarrow> d # probe_run m (Suc i mod length (table m)) fuel)"

definition example_map :: "(nat, nat) HashMap" where
  "example_map =
     \<lparr>hasher = id,
      items = [(1, \<lparr>data = (0, 10), distance_to_ideal = 0, id_in_table = 0\<rparr>),
               (2, \<lparr>data = (37, 11), distance_to_ideal = 1, id_in_table = 1\<rparr>),
               (3, \<lparr>data = (2, 12), distance_to_ideal = 0, id_in_table = 2\<rparr>)],
      table = (replicate 37 None)[0 := Some 1, 1 := Some 2, 2 := Some 3]\<rparr>"

text \<open>
  \<open>c\<close> is an independent copy of \<open>m\<close>: the same pairs in the same order, as many slots,
  the same hash function; every pair of \<open>m\<close> is found in \<open>c\<close>; the two maps share no node;
  an assignment through a reference into one of them changes the value there and leaves
  the other map as it was.
\<close>

definition independent_copy :: "('k, 'v) HashMap \<Rightarrow> ('k, 'v) HashMap \<Rightarrow> bool" where
  "independent_copy m c =
     (to_list c = to_list m \<and> bucket_count c = bucket_count m \<and> hasher c = hasher m \<and>
      (\<forall>(k, v) \<in> set (to_list m).
         \<exists>r. find_hm c k = Some (Some r) \<and> at_hm c k = Some (Inr r) \<and> read_ref c r = Some v) \<and>
      fst ` set (items c) \<inter> fst ` set (items m) = {} \<and>
      (\<forall>r v. deref c r \<noteq> None \<longrightarrow>
         write_ref m r v = m \<and> read_ref (write_ref c r v) r = Some v) \<and>
      (\<forall>r v. deref m r \<noteq> None \<longrightarrow>
         write_ref c r v = c \<and> read_ref (write_ref m r v) r = Some v))"

text \<open>The copy of \<open>example_map\<close>: its nodes are new ones, next to those of \<open>example_map\<close>.\<close>

definition example_copy :: "(nat, nat) HashMap" where
  "example_copy =
     \<lparr>hasher = id,
      items = [(4, \<lparr>data = (0, 10), distance_to_ideal = 0, id_in_table = 0\<rparr>),
               (5, \<lparr>data = (37, 11), distance_to_ideal = 1, id_in_table = 1\<rparr>),
               (6, \<lparr>data = (2, 12), distance_to_ideal = 0, id_in_table = 2\<rparr>)],
      table = (replicate 37 None)[0 := Some 4, 1 := Some 5, 2 := Some 6]\<rparr>"

text \<open>
  Certificates for the search of the next table size: \<open>all_composite c ds\<close> holds when
  \<open>ds\<close> lists a proper divisor for each of the candidates \<open>c\<close>, \<open>c + 1\<close>, \<dots>, and
  \<open>no_divisor c d k\<close> when none of \<open>d\<close>, \<open>d + 2\<close>, \<open>d + 6\<close>, \<open>d + 8\<close>, \<dots> (\<open>k\<close> pairs)
  divides \<open>c\<close>.
\<close>

fun all_composite :: "nat \<Rightarrow> nat list \<Rightarrow> bool" where
  "all_composite c [] = True"
| "all_composite c (d # ds) = (2 \<le> d \<and> d * d \<le> c \<and> c mod d = 0 \<and> all_composite (c + 1) ds)"

fun no_divisor :: "nat \<Rightarrow> nat \<Rightarrow> nat \<Rightarrow> bool" where
  "no_divisor c d 0 = True"
| "no_divisor c d (Suc k) = (c mod d \<noteq> 0 \<and> c mod (d + 2) \<noteq> 0 \<and> no_divisor c (d + 6) k)"

text \<open>
  The number of slots after \<open>k\<close> insertions of new keys into a fresh map: the growth
  policy of \<^verbatim>\<open>rehash_if_needed\<close> on numbers alone.
\<close>

fun bucket_count_after :: "nat \<Rightarrow> nat" where
  "bucket_count_after 0 = START_BUCKET_COUNT"
| "bucket_count_after (Suc k) =
     (if load_below_max k (bucket_count_after k) then bucket_count_after k
      else (case find_bucket_count (2 * bucket_count_after k) of None \<Rightarrow> 0 | Some p \<Rightarrow> p))"

text \<open>Keys \<open>0\<close>, \<dots>, \<open>n - 1\<close>, each with the value \<open>()\<close>.\<close>

definition keys_upto :: "nat \<Rightarrow> (nat \<times> unit) list" where
  "keys_upto n = map (\<lambda>i. (i, ())) [0..<n]"

text \<open>The load factor, the number of entries over the number of slots, as a rational.\<close>

definition load_factor :: "('k, 'v) HashMap \<Rightarrow> rat" where
  "load_factor m = of_nat (size_hm m) / of_nat (bucket_count m)"

text \<open>The map after the insertion of the keys \<open>0\<close>, \<dots>, \<open>13475201\<close> into a fresh map.\<close>

definition big_map :: "(nat, unit) HashMap" where
  "big_map = the (HashMap_range id (keys_upto 13475202))"

text \<open>The map after the insertion of the keys \<open>0\<close>, \<dots>, \<open>21\<close> into a fresh map.\<close>

definition full_map :: "(nat, unit) HashMap" where
  "full_map = the (HashMap_range id (keys_upto 22))"

text \<open>The map after the insertion of the key \<open>13475202\<close> into \<open>big_map\<close>.\<close>

definition big_map_next :: "(nat, unit) HashMap" where
  "big_map_next = the (insert_hm big_map (13475202, ()))"

section \<open>Proofs\<close>

lemma deref_upd_node:
  "deref (upd_node h f m) a = (if a = h then map_option f (deref m h) else deref m a)"
proof -
  have "map_of (map (\<lambda>(a, it). if a = h then (a, f it) else (a, it)) xs) a =
        (if a = h then map_option f (map_of xs h) else map_of xs a)" for xs
    by (induction xs) auto
  then show ?thesis by (simp add: deref_def upd_node_def)
qed

lemma table_upd_node [simp]: "table (upd_node h f m) = table m"
  and hasher_upd_node [simp]: "hasher (upd_node h f m) = hasher m"
  and addrs_upd_node [simp]: "map fst (items (upd_node h f m)) = map fst (items m)"
  by (auto simp: upd_node_def)

lemma deref_table_update [simp]: "deref (m\<lparr>table := t\<rparr>) = deref m"
  by (rule ext) (simp add: deref_def)

lemma to_list_upd_node:
  "(\<And>it. data (f it) = data it) \<Longrightarrow> to_list (upd_node h f m) = to_list m"
  by (auto simp: to_list_def upd_node_def)

lemma to_list_table_update [simp]: "to_list (m\<lparr>table := t\<rparr>) = to_list m"
  by (simp add: to_list_def)

lemma fold_max_ge: "a \<in> set xs \<Longrightarrow> a \<le> fold max xs (b::nat)"
proof (induction xs arbitrary: b)
  case Nil
  then show ?case by simp
next
  case (Cons x xs)
  have mono: "b \<le> fold max xs b" for b :: nat and xs
    by (induction xs arbitrary: b) (auto intro: order_trans [OF max.cobounded2])
  show ?case
  proof (cases "a = x")
    case True
    then show ?thesis using mono [of "max x b" xs] by simp
  next
    case False
    then show ?thesis using Cons by simp
  qed
qed

lemma new_addr_fresh: "new_addr used xs \<notin> fst ` set xs"
proof
  assume "new_addr used xs \<in> fst ` set xs"
  then have "new_addr used xs \<le> fold max (used @ map fst xs) 0"
    by (intro fold_max_ge) simp
  then show False by (simp add: new_addr_def)
qed

lemma new_addr_unused: "new_addr used xs \<notin> set used"
proof
  assume "new_addr used xs \<in> set used"
  then have "new_addr used xs \<le> fold max (used @ map fst xs) 0"
    by (intro fold_max_ge) simp
  then show False by (simp add: new_addr_def)
qed

lemma deref_Some_mem: "deref m h = Some it \<Longrightarrow> (h, it) \<in> set (items m)"
  by (simp add: deref_def map_of_SomeD)

lemma deref_None_iff: "deref m h = None \<longleftrightarrow> h \<notin> fst ` set (items m)"
  by (simp add: deref_def map_of_eq_None_iff)

lemma deref_emplace:
  assumes "h \<notin> fst ` set (items m)"
  shows "deref (m\<lparr>items := items m @ [(h, it)]\<rparr>) a = (if a = h then Some it else deref m a)"
proof -
  have "h \<notin> fst ` set xs \<Longrightarrow> map_of (xs @ [(h, it)]) a = (if a = h then Some it else map_of xs a)"
    for xs :: "(addr \<times> ('a, 'b) BucketItem) list"
    by (induction xs) auto
  from this [OF assms] show ?thesis by (simp add: deref_def)
qed

lemma deref_remove:
  "deref (m\<lparr>items := filter (\<lambda>(a, _). a \<noteq> h) (items m)\<rparr>) a =
   (if a = h then None else deref m a)"
proof -
  have *: "map_of (filter (\<lambda>(a, _). a \<noteq> h) xs) a = (if a = h then None else map_of xs a)"
    for xs :: "(addr \<times> ('a, 'b) BucketItem) list"
    by (induction xs) auto
  show ?thesis by (simp add: deref_def *)
qed

lemma mod_lt: "i < n \<Longrightarrow> k mod n < (n::nat)"
  by (cases n) auto

lemma mod_reach:
  assumes "e < (n::nat)"
  shows "\<exists>j<n. (a + j) mod n = e"
proof -
  let ?j = "(e + (n - a mod n)) mod n"
  have 1: "(a + ?j) mod n = (a + (e + (n - a mod n))) mod n"
    by (rule mod_add_right_eq)
  have 2: "(a + (e + (n - a mod n))) mod n = (a mod n + (e + (n - a mod n))) mod n"
    by (rule mod_add_left_eq [symmetric])
  have 3: "a mod n + (e + (n - a mod n)) = e + n"
    using assms by (metis add.left_commute le_add_diff_inverse linorder_neqE_nat
        mod_le_divisor not_less_zero)
  have 4: "(e + n) mod n = e"
    using assms by simp
  have "(a + ?j) mod n = e"
    unfolding 1 2 3 by (rule 4)
  moreover have "?j < n"
    using assms by simp
  ultimately show ?thesis by blast
qed

lemma mod_add_inj:
  assumes "(a + i) mod n = (a + j) mod n" "i < n" "j < (n::nat)"
  shows "i = j"
proof -
  have aux: "i = j" if "(a + i) mod n = (a + j) mod n" "i \<le> j" "j < n" for i j
  proof -
    have "n dvd (a + j) - (a + i)"
      using that by (metis mod_eq_dvd_iff_nat nat_add_left_cancel_le)
    then have "n dvd j - i" by simp
    moreover have "j - i < n" using that by simp
    ultimately have "j - i = 0" by auto
    then show ?thesis using that by simp
  qed
  show ?thesis
  proof (cases "i \<le> j")
    case True
    then show ?thesis using aux assms by blast
  next
    case False
    then have "j \<le> i" by simp
    then show ?thesis using aux [of j i] assms by simp
  qed
qed

lemma slot_wf:
  assumes "wf m hand" "i < length (table m)" "table m ! i = Some h"
  obtains it where "deref m h = Some it" "id_in_table it = i"
    "(hasher m (fst (data it)) + distance_to_ideal it) mod length (table m) = i"
    "slot m i = Some it" "Some h \<noteq> hand"
  using assms unfolding wf_def slot_def by (metis option.simps(5))

lemma wf_node:
  assumes "wf m hand" "deref m h = Some it" "Some h \<noteq> hand"
  shows "id_in_table it < length (table m)" "table m ! id_in_table it = Some h"
    "(hasher m (fst (data it)) + distance_to_ideal it) mod length (table m) = id_in_table it"
    "slot m (id_in_table it) = Some it"
proof -
  from assms show i: "id_in_table it < length (table m)" "table m ! id_in_table it = Some h"
    by (simp_all add: wf_def)
  from slot_wf [OF assms(1) i] assms(2)
  show "(hasher m (fst (data it)) + distance_to_ideal it) mod length (table m) = id_in_table it"
    "slot m (id_in_table it) = Some it"
    by auto
qed

lemma wf_distinct:
  assumes "wf m hand"
  shows "distinct (map fst (items m))" "distinct (map fst (to_list m))"
  using assms by (simp_all add: wf_def)

lemma key_unique:
  assumes "distinct (map fst (to_list m))"
    and "(h, it) \<in> set (items m)" "(h', it') \<in> set (items m)"
    and "fst (data it) = fst (data it')"
  shows "(h, it) = (h', it')"
proof -
  have "map fst (to_list m) = map (\<lambda>x. fst (data (snd x))) (items m)"
    by (simp add: to_list_def case_prod_unfold)
  with assms(1) have "inj_on (\<lambda>x. fst (data (snd x))) (set (items m))"
    by (simp add: distinct_map)
  from inj_onD [OF this _ assms(2,3)] assms(4) show ?thesis by simp
qed

lemma find_loop_returns:
  assumes "wf m hand" "hash < length (table m)"
    and "table m ! ((hash + k) mod length (table m)) = None"
  shows "\<exists>r. find_loop m key hash = Some r \<and>
           (case r of None \<Rightarrow> True
            | Some h \<Rightarrow> \<exists>it. deref m h = Some it \<and> fst (data it) = key)"
  using assms(2,3)
proof (induction k arbitrary: hash)
  case 0
  then show ?case by (subst find_loop.simps) simp
next
  case (Suc k)
  let ?n = "length (table m)"
  show ?case
  proof (cases "table m ! hash")
    case None
    then show ?thesis using Suc.prems by (subst find_loop.simps) simp
  next
    case (Some h)
    from slot_wf [OF assms(1) Suc.prems(1) Some] obtain it where it: "deref m h = Some it"
      by blast
    show ?thesis
    proof (cases "fst (data it) = key")
      case True
      then show ?thesis using Suc.prems Some it by (subst find_loop.simps) simp
    next
      case False
      have "(hash + 1) mod ?n < ?n" using Suc.prems(1) by (rule mod_lt)
      moreover have "table m ! (((hash + 1) mod ?n + k) mod ?n) = None"
        using Suc.prems(2) by (simp add: mod_add_left_eq)
      ultimately obtain r where "find_loop m key ((hash + 1) mod ?n) = Some r"
        "(case r of None \<Rightarrow> True | Some h \<Rightarrow> \<exists>it. deref m h = Some it \<and> fst (data it) = key)"
        using Suc.IH by blast
      then show ?thesis using Suc.prems Some it False by (subst find_loop.simps) simp
    qed
  qed
qed

lemma keys_to_list: "fst ` set (to_list m) = {fst (data it) | h it. (h, it) \<in> set (items m)}"
  by (force simp: to_list_def)

lemma deref_key_mem: "deref m h = Some it \<Longrightarrow> fst (data it) \<in> fst ` set (to_list m)"
  using deref_Some_mem [of m h it] by (auto simp: keys_to_list)

lemma find_hm_absent:
  assumes "wf m hand" "e < length (table m)" "table m ! e = None"
    and "key \<notin> fst ` set (to_list m)"
  shows "find_hm m key = Some None"
proof -
  let ?n = "length (table m)"
  let ?a = "hasher m key mod ?n"
  have a: "?a < ?n" using assms(2) by (rule mod_lt)
  obtain j where "(?a + j) mod ?n = e"
    using mod_reach [OF assms(2)] by blast
  with assms(3) have "table m ! ((?a + j) mod ?n) = None" by simp
  from find_loop_returns [OF assms(1) a this, of key]
  obtain r where r: "find_loop m key ?a = Some r"
    "(case r of None \<Rightarrow> True | Some h \<Rightarrow> \<exists>it. deref m h = Some it \<and> fst (data it) = key)"
    by blast
  have "r = None"
  proof (cases r)
    case None
    then show ?thesis .
  next
    case (Some h)
    with r(2) obtain it where "deref m h = Some it" "fst (data it) = key" by auto
    with assms(4) deref_key_mem show ?thesis by metis
  qed
  with r(1) show ?thesis by (simp add: find_hm_def)
qed

lemma dist_at_wf:
  assumes "wf m None" "deref m h = Some it"
  shows "dist_at m ((hasher m (fst (data it)) + distance_to_ideal it) mod length (table m)) =
         Some (distance_to_ideal it)"
proof -
  show ?thesis
    using wf_node [OF assms] by (simp add: dist_at_def)
qed

lemma chain:
  assumes "wf m None" "robin_hood (length (table m)) (dist_at m)" "deref m h = Some it"
    and "k \<le> distance_to_ideal it"
  shows "\<exists>d'. dist_at m ((hasher m (fst (data it)) + (distance_to_ideal it - k)) mod length (table m)) = Some d'
            \<and> distance_to_ideal it - k \<le> d'"
  using assms(4)
proof (induction k)
  case 0
  then show ?case using dist_at_wf [OF assms(1,3)] by simp
next
  case (Suc k)
  let ?n = "length (table m)"
  let ?a = "hasher m (fst (data it))"
  let ?d = "distance_to_ideal it"
  from assms(1,3) have "id_in_table it < ?n" by (simp add: wf_node)
  then have n: "(?a + (?d - Suc k)) mod ?n < ?n" by (rule mod_lt)
  from Suc obtain d' where d': "dist_at m ((?a + (?d - k)) mod ?n) = Some d'" "?d - k \<le> d'"
    by auto
  have "Suc ((?a + (?d - Suc k)) mod ?n) mod ?n = (?a + (?d - k)) mod ?n"
    using Suc.prems by (metis Suc_diff_Suc Suc_le_lessD add_Suc_right mod_Suc_eq)
  with d' have "dist_at m (Suc ((?a + (?d - Suc k)) mod ?n) mod ?n) = Some d'" by simp
  moreover have "0 < d'" using d'(2) Suc.prems by simp
  ultimately obtain d where "dist_at m ((?a + (?d - Suc k)) mod ?n) = Some d" "d' \<le> Suc d"
    using assms(2) n unfolding robin_hood_def by blast
  then show ?case using d'(2) by auto
qed

lemma distance_bound:
  assumes "wf m None" "robin_hood (length (table m)) (dist_at m)" "deref m h = Some it"
    and "e < length (table m)" "table m ! e = None"
  shows "distance_to_ideal it < length (table m)"
proof (rule ccontr)
  let ?n = "length (table m)"
  let ?d = "distance_to_ideal it"
  assume "\<not> ?d < ?n"
  obtain j where j: "j < ?n" "(hasher m (fst (data it)) + j) mod ?n = e"
    using mod_reach [OF assms(4)] by blast
  with \<open>\<not> ?d < ?n\<close> have "?d - j \<le> ?d" "?d - (?d - j) = j" by auto
  with chain [OF assms(1-3), of "?d - j"] j(2) obtain d' where "dist_at m e = Some d'"
    by auto
  with assms(5) show False by (simp add: dist_at_def slot_def)
qed

lemma find_loop_present:
  assumes "wf m None" "robin_hood (length (table m)) (dist_at m)" "deref m h = Some it"
    and "e < length (table m)" "table m ! e = None"
    and "k \<le> distance_to_ideal it"
  shows "find_loop m (fst (data it))
           ((hasher m (fst (data it)) + (distance_to_ideal it - k)) mod length (table m)) =
         Some (Some h)"
  using assms(6)
proof (induction k)
  case 0
  show ?case using wf_node [OF assms(1,3)] assms(3) by (subst find_loop.simps) simp
next
  case (Suc k)
  let ?n = "length (table m)"
  let ?a = "hasher m (fst (data it))"
  let ?d = "distance_to_ideal it"
  let ?p = "(?a + (?d - Suc k)) mod ?n"
  have dn: "?d < ?n" by (rule distance_bound [OF assms(1-5)])
  have idt: "(?a + ?d) mod ?n = id_in_table it"
    using wf_node [OF assms(1,3)] by simp
  have p: "?p < ?n" using assms(4) by (rule mod_lt)
  from chain [OF assms(1-3) Suc.prems] obtain d' where "dist_at m ?p = Some d'" by blast
  then obtain h' where h': "table m ! ?p = Some h'"
    by (auto simp: dist_at_def slot_def split: option.splits)
  from slot_wf [OF assms(1) p h'] obtain it' where it': "deref m h' = Some it'" "id_in_table it' = ?p"
    by metis
  have "?p \<noteq> id_in_table it"
  proof
    assume "?p = id_in_table it"
    with idt have "(?a + (?d - Suc k)) mod ?n = (?a + ?d) mod ?n" by simp
    from mod_add_inj [OF this] dn have "?d - Suc k = ?d" by simp
    with Suc.prems show False by simp
  qed
  with it' assms(3) have "h' \<noteq> h" by auto
  have "fst (data it') \<noteq> fst (data it)"
  proof
    assume eq: "fst (data it') = fst (data it)"
    have "(h', it') \<in> set (items m)" "(h, it) \<in> set (items m)"
      using it'(1) assms(3) by (auto dest: deref_Some_mem)
    from key_unique [OF wf_distinct(2) [OF assms(1)] this eq]
    have "(h', it') = (h, it)" .
    with \<open>h' \<noteq> h\<close> show False by simp
  qed
  moreover have "(?p + 1) mod ?n = (?a + (?d - k)) mod ?n"
    using Suc.prems by (metis Suc_diff_Suc Suc_le_lessD add_Suc_right mod_Suc_eq Suc_eq_plus1)
  ultimately show ?case
    using Suc.IH Suc.prems p h' it'(1) by (subst find_loop.simps) simp
qed

lemma find_hm_present:
  assumes "wf m None" "robin_hood (length (table m)) (dist_at m)" "deref m h = Some it"
    and "e < length (table m)" "table m ! e = None"
  shows "find_hm m (fst (data it)) = Some (Some h)"
  using find_loop_present [OF assms, of "distance_to_ideal it"] by (simp add: find_hm_def)

lemma Suc_mod_inj:
  assumes "Suc i mod n = Suc j mod n" "i < n" "j < n"
  shows "i = j"
  using mod_add_inj [of 1 i n j] assms by simp

lemma robin_hood_place:
  assumes "robin_hood n f" "f hash = None" "hand_ok n f hash d"
  shows "robin_hood n (f(hash := Some d))"
  unfolding robin_hood_def
proof (intro allI impI)
  fix i d'
  assume i: "i < n" and j: "(f(hash := Some d)) (Suc i mod n) = Some d'" and pos: "0 < d'"
  show "\<exists>d0. (f(hash := Some d)) i = Some d0 \<and> d' \<le> Suc d0"
  proof (cases "Suc i mod n = hash")
    case True
    with j have "d' = d" by simp
    with assms(3) i True pos obtain d0 where "f i = Some d0" "d \<le> Suc d0"
      unfolding hand_ok_def by blast
    with assms(2) \<open>d' = d\<close> show ?thesis by auto
  next
    case False
    with j have "f (Suc i mod n) = Some d'" by simp
    with assms(1) i pos obtain d0 where "f i = Some d0" "d' \<le> Suc d0"
      unfolding robin_hood_def by blast
    with assms(2) show ?thesis by auto
  qed
qed

lemma robin_hood_swap:
  assumes "robin_hood n f" "f hash = Some d'" "d' < d" "hand_ok n f hash d"
  shows "robin_hood n (f(hash := Some d))"
  unfolding robin_hood_def
proof (intro allI impI)
  fix i x
  assume i: "i < n" and j: "(f(hash := Some d)) (Suc i mod n) = Some x" and pos: "0 < x"
  show "\<exists>d0. (f(hash := Some d)) i = Some d0 \<and> x \<le> Suc d0"
  proof (cases "Suc i mod n = hash")
    case True
    with j have "x = d" by simp
    with assms(4) i True pos obtain d0 where "f i = Some d0" "d \<le> Suc d0"
      unfolding hand_ok_def by blast
    with \<open>x = d\<close> show ?thesis by auto
  next
    case False
    with j have "f (Suc i mod n) = Some x" by simp
    with assms(1) i pos obtain d0 where "f i = Some d0" "x \<le> Suc d0"
      unfolding robin_hood_def by blast
    with assms(2,3) show ?thesis by auto
  qed
qed

lemma hand_ok_next:
  assumes "f hash = Some d'" "d \<le> d'" "hash < n"
  shows "hand_ok n f (Suc hash mod n) (Suc d)"
  unfolding hand_ok_def
proof (intro allI impI)
  fix i
  assume "i < n" "Suc i mod n = Suc hash mod n"
  with assms(3) have "i = hash" by (auto dest: Suc_mod_inj)
  with assms show "\<exists>d0. f i = Some d0 \<and> Suc d \<le> Suc d0" by simp
qed

lemma hand_ok_0: "hand_ok n f hash 0"
  by (simp add: hand_ok_def)

lemma robin_hood_shift:
  assumes "robin_hood n (f(hash := Some dh))" "hash < n" "Suc hash mod n \<noteq> hash"
    and "f (Suc hash mod n) = Some d" "0 < d"
  shows "robin_hood n (f(hash := Some (d - 1)))"
  unfolding robin_hood_def
proof (intro allI impI)
  fix i x
  assume i: "i < n" and j: "(f(hash := Some (d - 1))) (Suc i mod n) = Some x" and pos: "0 < x"
  from assms have "(f(hash := Some dh)) (Suc hash mod n) = Some d" by simp
  with assms(1,2,5) have dh: "d \<le> Suc dh"
    unfolding robin_hood_def by fastforce
  show "\<exists>d0. (f(hash := Some (d - 1))) i = Some d0 \<and> x \<le> Suc d0"
  proof (cases "Suc i mod n = hash")
    case True
    with j have x: "x = d - 1" by simp
    from True assms(3) have ne: "i \<noteq> hash" by auto
    from True have "(f(hash := Some dh)) (Suc i mod n) = Some dh" by simp
    moreover have "0 < dh" using x pos dh by simp
    ultimately obtain d0 where "(f(hash := Some dh)) i = Some d0" "dh \<le> Suc d0"
      using assms(1) i unfolding robin_hood_def by blast
    with ne x dh show ?thesis by auto
  next
    case False
    with j have "(f(hash := Some dh)) (Suc i mod n) = Some x" by simp
    with assms(1) i pos obtain d0 where d0: "(f(hash := Some dh)) i = Some d0" "x \<le> Suc d0"
      unfolding robin_hood_def by blast
    show ?thesis
    proof (cases "i = hash")
      case True
      with False j assms(4) have "x = d" by simp
      with True assms(5) show ?thesis by simp
    next
      case False
      with d0 show ?thesis by simp
    qed
  qed
qed

lemma robin_hood_stop:
  assumes "robin_hood n (f(hash := Some dh))" "f hash = None" "hash < n"
    and "f (Suc hash mod n) = None \<or> f (Suc hash mod n) = Some 0"
  shows "robin_hood n f"
  unfolding robin_hood_def
proof (intro allI impI)
  fix i x
  assume i: "i < n" and j: "f (Suc i mod n) = Some x" and pos: "0 < x"
  from j assms(2) have "Suc i mod n \<noteq> hash" by auto
  with j have "(f(hash := Some dh)) (Suc i mod n) = Some x" by simp
  with assms(1) i pos obtain d0 where d0: "(f(hash := Some dh)) i = Some d0" "x \<le> Suc d0"
    unfolding robin_hood_def by blast
  have "i \<noteq> hash" using assms(4) j pos by auto
  with d0 show "\<exists>d0. f i = Some d0 \<and> x \<le> Suc d0" by simp
qed

lemma robin_hood_cong:
  assumes "robin_hood n f" "\<And>i. i < n \<Longrightarrow> g i = f i"
  shows "robin_hood n g"
  unfolding robin_hood_def
proof (intro allI impI)
  fix i x
  assume i: "i < n" and j: "g (Suc i mod n) = Some x" and pos: "0 < x"
  have "Suc i mod n < n" using i by (rule mod_lt)
  with j assms(2) have "f (Suc i mod n) = Some x" by simp
  with assms(1) i pos obtain d0 where "f i = Some d0" "x \<le> Suc d0"
    unfolding robin_hood_def by blast
  with assms(2) i show "\<exists>d0. g i = Some d0 \<and> x \<le> Suc d0" by simp
qed

lemma hand_ok_cong:
  assumes "hand_ok n f hash d" "\<And>i. i < n \<Longrightarrow> g i = f i"
  shows "hand_ok n g hash d"
  using assms unfolding hand_ok_def by simp

lemma to_list_place [simp]: "to_list (place m h hash) = to_list m"
  by (simp add: place_def to_list_upd_node)

lemma addrs_place [simp]: "map fst (items (place m h hash)) = map fst (items m)"
  by (simp add: place_def)

lemma hasher_place [simp]: "hasher (place m h hash) = hasher m"
  by (simp add: place_def)

lemma table_place [simp]: "table (place m h hash) = (table m)[hash := Some h]"
  by (simp add: place_def)

lemma deref_place:
  "deref (place m h hash) a =
   (if a = h then map_option (id_in_table_update (\<lambda>_. hash)) (deref m h) else deref m a)"
  by (simp add: place_def deref_upd_node)

lemma table_inj:
  assumes "wf m hand" "table m ! i = Some a" "table m ! j = Some a"
    and "i < length (table m)" "j < length (table m)"
  shows "i = j"
proof -
  from slot_wf [OF assms(1,4,2)] obtain it where "deref m a = Some it" "id_in_table it = i"
    by metis
  moreover from slot_wf [OF assms(1,5,3)] obtain it' where "deref m a = Some it'" "id_in_table it' = j"
    by metis
  ultimately show ?thesis by simp
qed

lemma wf_not_hand:
  assumes "wf m (Some h)" "i < length (table m)"
  shows "table m ! i \<noteq> Some h"
  using assms by (auto simp: wf_def)

lemma wf_place:
  assumes wf: "wf m (Some h)" and cur: "deref m h = Some cur"
    and hash: "hash < length (table m)"
    and ideal: "(hasher m (fst (data cur)) + distance_to_ideal cur) mod length (table m) = hash"
  shows "wf (place m h hash) (table m ! hash)"
  unfolding wf_def
proof (intro conjI allI impI)
  let ?m = "place m h hash"
  let ?n = "length (table m)"
  show "distinct (map fst (items ?m))" using wf by (simp add: wf_distinct)
  show "distinct (map fst (to_list ?m))" using wf by (simp add: wf_distinct)
  {
    fix i a
    assume i: "i < length (table ?m)" and a: "table ?m ! i = Some a"
    from i have i': "i < ?n" by simp
    show "Some a \<noteq> table m ! hash"
    proof (cases "i = hash")
      case True
      with a i' have "a = h" by simp
      with wf_not_hand [OF wf hash] show ?thesis by simp
    next
      case False
      with a have "table m ! i = Some a" by simp
      with table_inj [OF wf this _ i' hash] False show ?thesis by auto
    qed
    show "\<exists>it. deref ?m a = Some it \<and> id_in_table it = i \<and>
            (hasher ?m (fst (data it)) + distance_to_ideal it) mod length (table ?m) = i"
    proof (cases "i = hash")
      case True
      with a i' have "a = h" by simp
      with cur ideal True show ?thesis by (simp add: deref_place)
    next
      case False
      with a have ti: "table m ! i = Some a" by simp
      from slot_wf [OF wf i' ti] obtain it where "deref m a = Some it" "id_in_table it = i"
        "(hasher m (fst (data it)) + distance_to_ideal it) mod ?n = i" "Some a \<noteq> Some h"
        by metis
      then show ?thesis by (simp add: deref_place)
    qed
  }
  {
    fix a it
    assume d: "deref ?m a = Some it" and nh: "Some a \<noteq> table m ! hash"
    have "id_in_table it < length (table ?m) \<and> table ?m ! id_in_table it = Some a"
    proof (cases "a = h")
      case True
      with d cur have "id_in_table it = hash" by (auto simp: deref_place)
      with True hash show ?thesis by simp
    next
      case False
      with d have d': "deref m a = Some it" by (simp add: deref_place)
      from wf_node(1,2) [OF wf d'] False
      have *: "id_in_table it < ?n" "table m ! id_in_table it = Some a" by auto
      with nh have "id_in_table it \<noteq> hash" by auto
      with * show ?thesis by simp
    qed
    then show "id_in_table it < length (table ?m)" "table ?m ! id_in_table it = Some a"
      by blast+
  }
qed

lemma slot_place:
  assumes wf: "wf m (Some h)" and cur: "deref m h = Some cur"
    and "hash < length (table m)" "i < length (table m)"
  shows "slot (place m h hash) i =
         (if i = hash then Some (cur\<lparr>id_in_table := hash\<rparr>) else slot m i)"
proof (cases "i = hash")
  case True
  with assms show ?thesis by (simp add: slot_def deref_place)
next
  case False
  have "table m ! i \<noteq> Some h" using wf assms(4) by (rule wf_not_hand)
  with False show ?thesis
    by (auto simp: slot_def deref_place split: option.splits)
qed

lemma wf_upd_hand:
  assumes wf: "wf m (Some h)" and f: "\<And>it. data (f it) = data it"
  shows "wf (upd_node h f m) (Some h)"
  unfolding wf_def
proof (intro conjI allI impI)
  let ?m = "upd_node h f m"
  show "distinct (map fst (items ?m))" using wf by (simp add: wf_distinct)
  show "distinct (map fst (to_list ?m))" using wf f by (simp add: wf_distinct to_list_upd_node)
  {
    fix i a
    assume i: "i < length (table ?m)" and a: "table ?m ! i = Some a"
    then have i': "i < length (table m)" and a': "table m ! i = Some a" by simp_all
    from slot_wf [OF wf i' a'] obtain it where it: "deref m a = Some it" "id_in_table it = i"
        "(hasher m (fst (data it)) + distance_to_ideal it) mod length (table m) = i" "Some a \<noteq> Some h"
      by metis
    then show "Some a \<noteq> Some h" by simp
    from it show "\<exists>it. deref ?m a = Some it \<and> id_in_table it = i \<and>
            (hasher ?m (fst (data it)) + distance_to_ideal it) mod length (table ?m) = i"
      by (simp add: deref_upd_node)
  }
  {
    fix a it
    assume d: "deref ?m a = Some it" and nh: "Some a \<noteq> Some h"
    then have "deref m a = Some it" by (simp add: deref_upd_node)
    from wf_node(1,2) [OF wf this nh]
    show "id_in_table it < length (table ?m)" "table ?m ! id_in_table it = Some a"
      by simp_all
  }
qed

lemma slot_upd_hand:
  assumes wf: "wf m (Some h)" and "i < length (table m)"
  shows "slot (upd_node h f m) i = slot m i"
  using wf_not_hand [OF assms]
  by (auto simp: slot_def deref_upd_node split: option.splits)

lemma same_content_refl [simp]: "same_content m m"
  by (simp add: same_content_def)

lemma same_content_trans: "same_content a b \<Longrightarrow> same_content b c \<Longrightarrow> same_content a c"
  by (simp add: same_content_def)

lemma same_content_place [simp]: "hash < length (table m) \<Longrightarrow> same_content m (place m h hash)"
  by (simp add: same_content_def)

lemma same_content_upd_node:
  "(\<And>it. data (f it) = data it) \<Longrightarrow> same_content m (upd_node h f m)"
  by (simp add: same_content_def to_list_upd_node)

lemma insert_loop_empty:
  "hash < length (table m) \<Longrightarrow> table m ! hash = None \<Longrightarrow>
   insert_loop m h hash = Some (place m h hash)"
  by (subst insert_loop.simps) (simp add: place_def)

lemma insert_loop_swap:
  "hash < length (table m) \<Longrightarrow> table m ! hash = Some occ \<Longrightarrow> deref m occ = Some oc \<Longrightarrow>
   deref m h = Some cur \<Longrightarrow> distance_to_ideal oc < distance_to_ideal cur \<Longrightarrow>
   insert_loop m h hash =
     insert_loop (upd_node occ (distance_to_ideal_update Suc) (place m h hash)) occ
       ((hash + 1) mod length (table m))"
  by (subst insert_loop.simps) (simp add: place_def)

lemma insert_loop_keep:
  "hash < length (table m) \<Longrightarrow> table m ! hash = Some occ \<Longrightarrow> deref m occ = Some oc \<Longrightarrow>
   deref m h = Some cur \<Longrightarrow> \<not> distance_to_ideal oc < distance_to_ideal cur \<Longrightarrow>
   insert_loop m h hash =
     insert_loop (upd_node h (distance_to_ideal_update Suc) m) h
       ((hash + 1) mod length (table m))"
  by (subst insert_loop.simps) simp

lemma dist_at_place:
  assumes "wf m (Some h)" "deref m h = Some cur" "hash < length (table m)" "i < length (table m)"
  shows "dist_at (place m h hash) i = ((dist_at m)(hash := Some (distance_to_ideal cur))) i"
  using slot_place [OF assms] by (simp add: dist_at_def)

lemma dist_at_upd_hand:
  assumes "wf m (Some h)" "i < length (table m)"
  shows "dist_at (upd_node h f m) i = dist_at m i"
  using slot_upd_hand [OF assms] by (simp add: dist_at_def)

lemma probing_final:
  assumes "probing m h hash" "table m ! hash = None"
  shows "inv0 (place m h hash)"
proof -
  let ?n = "length (table m)"
  from assms(1) obtain cur where hash: "hash < ?n" and wf: "wf m (Some h)"
    and rh: "robin_hood ?n (dist_at m)" and cur: "deref m h = Some cur"
    and ideal: "(hasher m (fst (data cur)) + distance_to_ideal cur) mod ?n = hash"
    and ok: "hand_ok ?n (dist_at m) hash (distance_to_ideal cur)"
    unfolding probing_def by blast
  have "wf (place m h hash) None"
    using wf_place [OF wf cur hash ideal] assms(2) by simp
  moreover have "dist_at m hash = None" using assms(2) by (simp add: dist_at_def slot_def)
  from robin_hood_place [OF rh this ok]
  have "robin_hood ?n (dist_at (place m h hash))"
    by (rule robin_hood_cong) (rule dist_at_place [OF wf cur hash])
  ultimately show ?thesis by (simp add: inv0_def)
qed

lemma probing_swap:
  assumes "probing m h hash" "table m ! hash = Some occ" "deref m occ = Some oc"
    "deref m h = Some cur" "distance_to_ideal oc < distance_to_ideal cur"
  shows "probing (upd_node occ (distance_to_ideal_update Suc) (place m h hash)) occ
           ((hash + 1) mod length (table m))"
proof -
  let ?n = "length (table m)"
  let ?p = "place m h hash"
  let ?m = "upd_node occ (distance_to_ideal_update Suc) ?p"
  from assms(1,4) have hash: "hash < ?n" and wf: "wf m (Some h)"
    and rh: "robin_hood ?n (dist_at m)"
    and ideal: "(hasher m (fst (data cur)) + distance_to_ideal cur) mod ?n = hash"
    and ok: "hand_ok ?n (dist_at m) hash (distance_to_ideal cur)"
    unfolding probing_def by auto
  from slot_wf [OF wf hash assms(2)] assms(3)
  have oc: "(hasher m (fst (data oc)) + distance_to_ideal oc) mod ?n = hash"
    "slot m hash = Some oc" "occ \<noteq> h"
    by auto
  have wfp: "wf ?p (Some occ)"
    using wf_place [OF wf assms(4) hash ideal] assms(2) by simp
  then have wf': "wf ?m (Some occ)" by (rule wf_upd_hand) simp
  have da: "dist_at ?m i = ((dist_at m)(hash := Some (distance_to_ideal cur))) i" if "i < ?n" for i
    using dist_at_upd_hand [OF wfp, of i] dist_at_place [OF wf assms(4) hash that] that by simp
  have dh: "dist_at m hash = Some (distance_to_ideal oc)"
    using oc(2) by (simp add: dist_at_def)
  have rh': "robin_hood ?n (dist_at ?m)"
    by (rule robin_hood_cong [OF robin_hood_swap [OF rh dh assms(5) ok]]) (rule da)
  have "hand_ok ?n ((dist_at m)(hash := Some (distance_to_ideal cur))) (Suc hash mod ?n)
          (Suc (distance_to_ideal oc))"
    using assms(5) hash by (intro hand_ok_next [where d' = "distance_to_ideal cur"]) auto
  then have ok': "hand_ok ?n (dist_at ?m) (Suc hash mod ?n) (Suc (distance_to_ideal oc))"
    by (rule hand_ok_cong) (rule da)
  have d': "deref ?m occ = Some (oc\<lparr>distance_to_ideal := Suc (distance_to_ideal oc)\<rparr>)"
    using assms(3) oc(3) by (simp add: deref_upd_node deref_place)
  have "(hasher m (fst (data oc)) + Suc (distance_to_ideal oc)) mod ?n = Suc hash mod ?n"
    using oc(1) by (metis add_Suc_right mod_Suc_eq)
  with wf' rh' ok' d' hash show ?thesis
    unfolding probing_def by (simp add: mod_lt)
qed

lemma probing_keep:
  assumes "probing m h hash" "table m ! hash = Some occ" "deref m occ = Some oc"
    "deref m h = Some cur" "\<not> distance_to_ideal oc < distance_to_ideal cur"
  shows "probing (upd_node h (distance_to_ideal_update Suc) m) h
           ((hash + 1) mod length (table m))"
proof -
  let ?n = "length (table m)"
  let ?m = "upd_node h (distance_to_ideal_update Suc) m"
  from assms(1,4) have hash: "hash < ?n" and wf: "wf m (Some h)"
    and rh: "robin_hood ?n (dist_at m)"
    and ideal: "(hasher m (fst (data cur)) + distance_to_ideal cur) mod ?n = hash"
    unfolding probing_def by auto
  from slot_wf [OF wf hash assms(2)] assms(3)
  have oc: "slot m hash = Some oc" by auto
  have wf': "wf ?m (Some h)" using wf by (rule wf_upd_hand) simp
  have da: "dist_at ?m i = dist_at m i" if "i < ?n" for i
    using dist_at_upd_hand [OF wf that] .
  have rh': "robin_hood ?n (dist_at ?m)"
    by (rule robin_hood_cong [OF rh]) (rule da)
  have dh: "dist_at m hash = Some (distance_to_ideal oc)"
    using oc by (simp add: dist_at_def)
  have "hand_ok ?n (dist_at m) (Suc hash mod ?n) (Suc (distance_to_ideal cur))"
    using dh assms(5) hash by (intro hand_ok_next [where d' = "distance_to_ideal oc"]) auto
  then have ok': "hand_ok ?n (dist_at ?m) (Suc hash mod ?n) (Suc (distance_to_ideal cur))"
    by (rule hand_ok_cong) (rule da)
  have d': "deref ?m h = Some (cur\<lparr>distance_to_ideal := Suc (distance_to_ideal cur)\<rparr>)"
    using assms(4) by (simp add: deref_upd_node)
  have "(hasher m (fst (data cur)) + Suc (distance_to_ideal cur)) mod ?n = Suc hash mod ?n"
    using ideal by (metis add_Suc_right mod_Suc_eq)
  with wf' rh' ok' d' hash show ?thesis
    unfolding probing_def by (simp add: mod_lt)
qed

lemma insert_loop_correct:
  assumes "probing m h hash"
    and "table m ! ((hash + k) mod length (table m)) = None"
  shows "\<exists>m'. insert_loop m h hash = Some m' \<and> inv0 m' \<and> same_content m m'"
  using assms
proof (induction k arbitrary: m h hash)
  case 0
  then have hash: "hash < length (table m)" and e: "table m ! hash = None"
    by (simp_all add: probing_def)
  then show ?case
    using probing_final [OF "0.prems"(1) e] by (simp add: insert_loop_empty)
next
  case (Suc k)
  let ?n = "length (table m)"
  from Suc.prems(1) obtain cur where hash: "hash < ?n" and wf: "wf m (Some h)"
    and cur: "deref m h = Some cur"
    unfolding probing_def by blast
  show ?case
  proof (cases "table m ! hash")
    case None
    then show ?thesis
      using probing_final [OF Suc.prems(1) None] hash by (simp add: insert_loop_empty)
  next
    case (Some occ)
    from slot_wf [OF wf hash Some] obtain oc where oc: "deref m occ = Some oc" by metis
    have e: "(Suc hash mod ?n + k) mod ?n = (hash + Suc k) mod ?n"
      by (metis add_Suc add_Suc_right mod_add_left_eq)
    with Suc.prems(2) Some have ne: "(Suc hash mod ?n + k) mod ?n \<noteq> hash" by auto
    show ?thesis
    proof (cases "distance_to_ideal oc < distance_to_ideal cur")
      case True
      let ?m = "upd_node occ (distance_to_ideal_update Suc) (place m h hash)"
      have "table ?m ! (((hash + 1) mod length (table ?m) + k) mod length (table ?m)) = None"
        using e ne Suc.prems(2) by simp
      moreover have "probing ?m occ ((hash + 1) mod length (table ?m))"
        using probing_swap [OF Suc.prems(1) Some oc cur True] by simp
      ultimately obtain m' where m': "insert_loop ?m occ ((hash + 1) mod length (table ?m)) = Some m'"
        "inv0 m'" "same_content ?m m'"
        using Suc.IH by blast
      have "same_content m ?m"
        by (rule same_content_trans [OF same_content_place [OF hash]])
           (rule same_content_upd_node, simp)
      with m' show ?thesis
        using insert_loop_swap [OF hash Some oc cur True] by (auto intro: same_content_trans)
    next
      case False
      let ?m = "upd_node h (distance_to_ideal_update Suc) m"
      have "table ?m ! (((hash + 1) mod length (table ?m) + k) mod length (table ?m)) = None"
        using e Suc.prems(2) by simp
      moreover have "probing ?m h ((hash + 1) mod length (table ?m))"
        using probing_keep [OF Suc.prems(1) Some oc cur False] by simp
      ultimately obtain m' where m': "insert_loop ?m h ((hash + 1) mod length (table ?m)) = Some m'"
        "inv0 m'" "same_content ?m m'"
        using Suc.IH by blast
      have "same_content m ?m"
        by (rule same_content_upd_node) simp
      with m' show ?thesis
        using insert_loop_keep [OF hash Some oc cur False] by (auto intro: same_content_trans)
    qed
  qed
qed

lemma wf_emplace:
  assumes wf: "wf m None" and key: "fst x \<notin> fst ` set (to_list m)"
    and a: "a \<notin> fst ` set (items m)"
  shows "wf (m\<lparr>items := items m @ [(a, \<lparr>data = x, distance_to_ideal = 0, id_in_table = 0\<rparr>)]\<rparr>) (Some a)"
  unfolding wf_def
proof (intro conjI allI impI)
  let ?m = "m\<lparr>items := items m @ [(a, \<lparr>data = x, distance_to_ideal = 0, id_in_table = 0\<rparr>)]\<rparr>"
  have d: "deref ?m h = (if h = a then Some \<lparr>data = x, distance_to_ideal = 0, id_in_table = 0\<rparr> else deref m h)" for h
    by (rule deref_emplace [OF a])
  show "distinct (map fst (items ?m))" using wf a by (simp add: wf_distinct)
  have tl: "to_list ?m = to_list m @ [x]" by (simp add: to_list_def)
  show "distinct (map fst (to_list ?m))"
    unfolding tl using wf_distinct(2) [OF wf] key by simp
  {
    fix i h
    assume i: "i < length (table ?m)" and h: "table ?m ! i = Some h"
    then have i': "i < length (table m)" and h': "table m ! i = Some h" by simp_all
    from slot_wf [OF wf i' h'] obtain it where it: "deref m h = Some it" "id_in_table it = i"
        "(hasher m (fst (data it)) + distance_to_ideal it) mod length (table m) = i"
      by metis
    from it(1) a have "h \<noteq> a" by (auto dest: deref_Some_mem intro: rev_image_eqI)
    then show "Some h \<noteq> Some a" by simp
    from \<open>h \<noteq> a\<close> it show "\<exists>it. deref ?m h = Some it \<and> id_in_table it = i \<and>
            (hasher ?m (fst (data it)) + distance_to_ideal it) mod length (table ?m) = i"
      by (simp add: d)
  }
  {
    fix h it
    assume "deref ?m h = Some it" "Some h \<noteq> Some a"
    then have "deref m h = Some it" by (simp add: d)
    from wf_node(1,2) [OF wf this]
    show "id_in_table it < length (table ?m)" "table ?m ! id_in_table it = Some h"
      by simp_all
  }
qed

lemma emplace_and_probe_correct:
  assumes inv: "inv0 m" and key: "fst x \<notin> fst ` set (to_list m)"
    and e: "e < length (table m)" "table m ! e = None"
  shows "\<exists>m'. emplace_and_probe used m x = Some m' \<and> inv0 m' \<and> hasher m' = hasher m \<and>
           length (table m') = length (table m) \<and> to_list m' = to_list m @ [x] \<and>
           map fst (items m') = map fst (items m) @ [new_addr used (items m)]"
proof -
  let ?n = "length (table m)"
  let ?a = "new_addr used (items m)"
  let ?new = "\<lparr>data = x, distance_to_ideal = 0, id_in_table = 0\<rparr>"
  let ?m = "m\<lparr>items := items m @ [(?a, ?new)]\<rparr>"
  let ?hash = "hasher m (fst x) mod ?n"
  from inv have wf: "wf m None" and rh: "robin_hood ?n (dist_at m)"
    by (simp_all add: inv0_def)
  have a: "?a \<notin> fst ` set (items m)" by (rule new_addr_fresh)
  have d: "deref ?m h = (if h = ?a then Some ?new else deref m h)" for h
    by (rule deref_emplace [OF a])
  have wf': "wf ?m (Some ?a)" by (rule wf_emplace [OF wf key a])
  have sl: "slot ?m i = slot m i" if "i < ?n" for i
  proof (cases "table m ! i")
    case None
    then show ?thesis by (simp add: slot_def)
  next
    case (Some h)
    from slot_wf [OF wf that Some] obtain it where "deref m h = Some it" by metis
    with a have "h \<noteq> ?a" by (auto dest: deref_Some_mem intro: rev_image_eqI)
    with Some show ?thesis by (simp add: slot_def d)
  qed
  then have da: "dist_at ?m i = dist_at m i" if "i < ?n" for i
    using that by (simp add: dist_at_def)
  have rh': "robin_hood ?n (dist_at ?m)"
    by (rule robin_hood_cong [OF rh]) (rule da)
  have hash: "?hash < ?n" using e(1) by (rule mod_lt)
  have "probing ?m ?a ?hash"
    unfolding probing_def using wf' rh' hash by (simp add: d hand_ok_0)
  moreover obtain k where "(?hash + k) mod ?n = e"
    using mod_reach [OF e(1)] by blast
  with e(2) have "table ?m ! ((?hash + k) mod length (table ?m)) = None" by simp
  ultimately obtain m' where m': "insert_loop ?m ?a ?hash = Some m'" "inv0 m'" "same_content ?m m'"
    using insert_loop_correct [of ?m ?a ?hash k] by auto
  from m'(1) have "emplace_and_probe used m x = Some m'"
    by (simp add: emplace_and_probe_def Let_def)
  moreover have "to_list ?m = to_list m @ [x]" by (simp add: to_list_def)
  ultimately show ?thesis
    using m'(2,3) by (simp add: same_content_def)
qed

lemma erase_loop_stop_none:
  "hash < length (table m) \<Longrightarrow> next_hash < length (table m) \<Longrightarrow> table m ! next_hash = None \<Longrightarrow>
   erase_loop m hash next_hash = Some m"
  by (subst erase_loop.simps) simp

lemma erase_loop_stop_zero:
  "hash < length (table m) \<Longrightarrow> next_hash < length (table m) \<Longrightarrow> table m ! next_hash = Some a \<Longrightarrow>
   deref m a = Some it \<Longrightarrow> distance_to_ideal it = 0 \<Longrightarrow>
   erase_loop m hash next_hash = Some m"
  by (subst erase_loop.simps) simp

lemma erase_loop_shift:
  "hash < length (table m) \<Longrightarrow> next_hash < length (table m) \<Longrightarrow> table m ! next_hash = Some a \<Longrightarrow>
   deref m a = Some it \<Longrightarrow> 0 < distance_to_ideal it \<Longrightarrow> hash \<noteq> next_hash \<Longrightarrow>
   table m ! hash = None \<Longrightarrow>
   erase_loop m hash next_hash =
     erase_loop (shift m hash next_hash a) next_hash ((next_hash + 1) mod length (table m))"
  by (subst erase_loop.simps) (simp add: shift_def)

lemma deref_shift:
  "deref (shift m hash nxt a) b =
   (if b = a then map_option (\<lambda>it. distance_to_ideal_update (\<lambda>d. d - 1) (it\<lparr>id_in_table := hash\<rparr>)) (deref m a)
    else deref m b)"
  by (simp add: shift_def deref_upd_node option.map_comp comp_def)

lemma table_shift [simp]: "table (shift m hash nxt a) = (table m)[hash := Some a, nxt := None]"
  and hasher_shift [simp]: "hasher (shift m hash nxt a) = hasher m"
  and addrs_shift [simp]: "map fst (items (shift m hash nxt a)) = map fst (items m)"
  and to_list_shift [simp]: "to_list (shift m hash nxt a) = to_list m"
  by (simp_all add: shift_def to_list_upd_node)

lemma same_content_shift: "same_content m (shift m hash nxt a)"
  by (simp add: same_content_def)

lemma Suc_mod_cancel:
  assumes "Suc a mod n = Suc b mod n"
  shows "a mod n = b mod n"
proof (cases "n = 0")
  case True
  with assms show ?thesis by simp
next
  case False
  then have "a mod n < n" "b mod n < n" by simp_all
  moreover have "Suc (a mod n) mod n = Suc (b mod n) mod n"
    using assms by (simp add: mod_Suc_eq)
  ultimately show ?thesis by (auto dest: Suc_mod_inj)
qed

lemma wf_shift:
  assumes wf: "wf m None" and hash: "hash < length (table m)" "table m ! hash = None"
    and nxt: "Suc hash mod length (table m) \<noteq> hash"
    and a: "table m ! (Suc hash mod length (table m)) = Some a" "deref m a = Some it"
    and pos: "0 < distance_to_ideal it"
  shows "wf (shift m hash (Suc hash mod length (table m)) a) None"
  unfolding wf_def
proof (intro conjI allI impI)
  let ?n = "length (table m)"
  let ?nxt = "Suc hash mod ?n"
  let ?m = "shift m hash ?nxt a"
  have nn: "?nxt < ?n" using hash(1) by (rule mod_lt)
  from slot_wf [OF wf nn a(1)] a(2)
  have it: "id_in_table it = ?nxt" "(hasher m (fst (data it)) + distance_to_ideal it) mod ?n = ?nxt"
    by auto
  have e1: "Suc (hasher m (fst (data it)) + (distance_to_ideal it - 1)) =
      hasher m (fst (data it)) + distance_to_ideal it"
    using pos by arith
  have "Suc (hasher m (fst (data it)) + (distance_to_ideal it - 1)) mod ?n = Suc hash mod ?n"
    unfolding e1 by (rule it(2))
  from Suc_mod_cancel [OF this]
  have ideal: "(hasher m (fst (data it)) + (distance_to_ideal it - 1)) mod ?n = hash"
    using hash(1) by (simp only: mod_less)
  show "distinct (map fst (items ?m))" using wf by (simp add: wf_distinct)
  show "distinct (map fst (to_list ?m))" using wf by (simp add: wf_distinct)
  {
    fix i b
    assume i: "i < length (table ?m)" and b: "table ?m ! i = Some b"
    from i have i': "i < ?n" by simp
    show "Some b \<noteq> None" by simp
    show "\<exists>it. deref ?m b = Some it \<and> id_in_table it = i \<and>
            (hasher ?m (fst (data it)) + distance_to_ideal it) mod length (table ?m) = i"
    proof (cases "i = hash")
      case True
      with b hash(1) nxt have "b = a" by simp
      with a(2) ideal True show ?thesis by (simp add: deref_shift)
    next
      case False
      with b nn have ne: "i \<noteq> ?nxt" by (cases "i = ?nxt") auto
      with False b have ti: "table m ! i = Some b" by simp
      have "b \<noteq> a"
      proof
        assume "b = a"
        with ti have "table m ! i = Some a" by simp
        from table_inj [OF wf this a(1) i' nn] ne show False by simp
      qed
      moreover from slot_wf [OF wf i' ti] obtain it' where "deref m b = Some it'" "id_in_table it' = i"
        "(hasher m (fst (data it')) + distance_to_ideal it') mod ?n = i"
        by metis
      ultimately show ?thesis by (simp add: deref_shift)
    qed
  }
  {
    fix b it'
    assume d: "deref ?m b = Some it'"
    have "id_in_table it' < length (table ?m) \<and> table ?m ! id_in_table it' = Some b"
    proof (cases "b = a")
      case True
      with d a(2) have "id_in_table it' = hash" by (auto simp: deref_shift)
      with True hash(1) nxt show ?thesis by simp
    next
      case False
      with d have d': "deref m b = Some it'" by (simp add: deref_shift)
      from wf_node(1,2) [OF wf d']
      have *: "id_in_table it' < ?n" "table m ! id_in_table it' = Some b" by auto
      with hash(2) a(1) False have "id_in_table it' \<noteq> hash" "id_in_table it' \<noteq> ?nxt" by auto
      with * show ?thesis by simp
    qed
    then show "id_in_table it' < length (table ?m)" "table ?m ! id_in_table it' = Some b"
      by blast+
  }
qed

lemma slot_shift:
  assumes wf: "wf m None" and hash: "hash < length (table m)" "table m ! hash = None"
    and nxt: "nxt < length (table m)" "nxt \<noteq> hash"
    and a: "table m ! nxt = Some a" "deref m a = Some it"
    and i: "i < length (table m)"
  shows "slot (shift m hash nxt a) i =
         (if i = nxt then None
          else if i = hash then Some (distance_to_ideal_update (\<lambda>d. d - 1) (it\<lparr>id_in_table := hash\<rparr>))
          else slot m i)"
proof -
  consider "i = nxt" | "i = hash" | "i \<noteq> nxt" "i \<noteq> hash" by blast
  then show ?thesis
  proof cases
    case 1
    then show ?thesis using nxt by (simp add: slot_def)
  next
    case 2
    then show ?thesis using nxt hash a by (simp add: slot_def deref_shift)
  next
    case 3
    have "table m ! i \<noteq> Some a"
      using table_inj [OF wf _ a(1) i nxt(1)] 3 by auto
    with 3 show ?thesis
      by (auto simp: slot_def deref_shift split: option.splits)
  qed
qed

lemma shifting_shift:
  assumes sh: "shifting m hash"
    and nxt: "Suc hash mod length (table m) \<noteq> hash"
    and a: "table m ! (Suc hash mod length (table m)) = Some a" "deref m a = Some it"
    and pos: "0 < distance_to_ideal it"
  shows "shifting (shift m hash (Suc hash mod length (table m)) a) (Suc hash mod length (table m))"
proof -
  let ?n = "length (table m)"
  let ?nxt = "Suc hash mod ?n"
  let ?m = "shift m hash ?nxt a"
  let ?d = "distance_to_ideal it"
  from sh obtain dh where hash: "hash < ?n" "table m ! hash = None" and wf: "wf m None"
    and rh: "robin_hood ?n ((dist_at m)(hash := Some dh))"
    unfolding shifting_def by blast
  have nn: "?nxt < ?n" using hash(1) by (rule mod_lt)
  have wf': "wf ?m None" by (rule wf_shift [OF wf hash nxt a pos])
  from slot_wf [OF wf nn a(1)] a(2) have dn: "dist_at m ?nxt = Some ?d"
    by (auto simp: dist_at_def)
  have "robin_hood ?n ((dist_at m)(hash := Some (?d - 1)))"
    by (rule robin_hood_shift [OF rh hash(1) nxt dn pos])
  then have "robin_hood ?n ((dist_at ?m)(?nxt := Some ?d))"
  proof (rule robin_hood_cong)
    fix i
    assume "i < ?n"
    from slot_shift [OF wf hash nn nxt a this] dn nxt
    show "((dist_at ?m)(?nxt := Some ?d)) i = ((dist_at m)(hash := Some (?d - 1))) i"
      by (auto simp: dist_at_def)
  qed
  with wf' nn nxt show ?thesis
    unfolding shifting_def by auto
qed

lemma shifting_stop:
  assumes sh: "shifting m hash"
    and "dist_at m (Suc hash mod length (table m)) = None \<or>
         dist_at m (Suc hash mod length (table m)) = Some 0"
  shows "inv0 m"
proof -
  from sh obtain dh where hash: "hash < length (table m)" "table m ! hash = None" and wf: "wf m None"
    and rh: "robin_hood (length (table m)) ((dist_at m)(hash := Some dh))"
    unfolding shifting_def by blast
  have "dist_at m hash = None" using hash(2) by (simp add: dist_at_def slot_def)
  from robin_hood_stop [OF rh this hash(1) assms(2)] wf show ?thesis
    by (simp add: inv0_def)
qed

lemma Suc_mod_self:
  assumes "Suc hash mod n = hash" "hash < n"
  shows "n = 1"
proof (rule ccontr)
  assume "n \<noteq> 1"
  show False
  proof (cases "Suc hash < n")
    case True
    with assms show ?thesis by simp
  next
    case False
    with assms(2) have "Suc hash = n" by simp
    with assms(1) \<open>n \<noteq> 1\<close> show ?thesis by auto
  qed
qed

lemma erase_loop_correct:
  assumes "shifting m hash"
    and "e < length (table m)" "e \<noteq> hash" "table m ! e = None"
    and "(Suc hash mod length (table m) + k) mod length (table m) = e"
  shows "\<exists>m'. erase_loop m hash (Suc hash mod length (table m)) = Some m' \<and> inv0 m' \<and>
           same_content m m'"
  using assms
proof (induction k arbitrary: m hash)
  case 0
  let ?n = "length (table m)"
  from "0.prems" have hash: "hash < ?n" by (simp add: shifting_def)
  then have nn: "Suc hash mod ?n < ?n" by (rule mod_lt)
  from "0.prems" nn have e: "table m ! (Suc hash mod ?n) = None" by simp
  then have "dist_at m (Suc hash mod ?n) = None" by (simp add: dist_at_def slot_def)
  with shifting_stop [OF "0.prems"(1)] have "inv0 m" by simp
  then show ?case using erase_loop_stop_none [OF hash nn e] by simp
next
  case (Suc k)
  let ?n = "length (table m)"
  let ?nxt = "Suc hash mod ?n"
  from Suc.prems(1) have hash: "hash < ?n" "table m ! hash = None" and wf: "wf m None"
    by (simp_all add: shifting_def)
  have nn: "?nxt < ?n" using hash(1) by (rule mod_lt)
  have ne: "?nxt \<noteq> hash"
  proof
    assume "?nxt = hash"
    from Suc_mod_self [OF this hash(1)] Suc.prems(2,3) hash(1) show False by simp
  qed
  show ?case
  proof (cases "table m ! ?nxt")
    case None
    then have "dist_at m ?nxt = None" by (simp add: dist_at_def slot_def)
    with shifting_stop [OF Suc.prems(1)] have "inv0 m" by simp
    then show ?thesis using erase_loop_stop_none [OF hash(1) nn None] by simp
  next
    case (Some a)
    from slot_wf [OF wf nn Some] obtain it where it: "deref m a = Some it" "slot m ?nxt = Some it"
      by metis
    show ?thesis
    proof (cases "distance_to_ideal it = 0")
      case True
      with it have "dist_at m ?nxt = Some 0" by (simp add: dist_at_def)
      with shifting_stop [OF Suc.prems(1)] have "inv0 m" by simp
      then show ?thesis using erase_loop_stop_zero [OF hash(1) nn Some it(1) True] by simp
    next
      case False
      then have pos: "0 < distance_to_ideal it" by simp
      let ?m = "shift m hash ?nxt a"
      have sh': "shifting ?m ?nxt"
        by (rule shifting_shift [OF Suc.prems(1) ne Some it(1) pos])
      have len: "length (table ?m) = ?n" by simp
      have en: "e \<noteq> ?nxt" using Suc.prems(4) Some by auto
      have "table ?m ! e = None" using Suc.prems(2,3,4) en by simp
      moreover have "(Suc ?nxt mod ?n + k) mod ?n = e"
        using Suc.prems(5) by (metis add_Suc add_Suc_right mod_add_left_eq)
      ultimately obtain m' where m': "erase_loop ?m ?nxt (Suc ?nxt mod ?n) = Some m'" "inv0 m'"
          "same_content ?m m'"
        using Suc.IH [of ?m ?nxt] sh' Suc.prems(2) en len by auto
      have "erase_loop m hash ?nxt = erase_loop ?m ?nxt (Suc ?nxt mod ?n)"
        using erase_loop_shift [OF hash(1) nn Some it(1) pos ne [symmetric] hash(2)] by simp
      with m' same_content_shift [of m hash ?nxt a] show ?thesis
        by (auto intro: same_content_trans)
    qed
  qed
qed

lemma deref_unlink: "deref (unlink m h hash) a = (if a = h then None else deref m a)"
  using deref_remove [where m = m and h = h and a = a] by (simp add: unlink_def deref_def)

lemma table_unlink [simp]: "table (unlink m h hash) = (table m)[hash := None]"
  and hasher_unlink [simp]: "hasher (unlink m h hash) = hasher m"
  and addrs_unlink: "map fst (items (unlink m h hash)) = filter (\<lambda>a. a \<noteq> h) (map fst (items m))"
  by (simp_all add: unlink_def filter_map comp_def case_prod_unfold)

lemma to_list_unlink:
  assumes wf: "wf m None" and it: "deref m h = Some it"
  shows "to_list (unlink m h hash) = filter (\<lambda>kv. fst kv \<noteq> fst (data it)) (to_list m)"
proof -
  have mem: "(h, it) \<in> set (items m)" using it by (rule deref_Some_mem)
  have "(case x of (a, _) \<Rightarrow> a \<noteq> h) \<longleftrightarrow> fst (data (snd x)) \<noteq> fst (data it)"
    if x: "x \<in> set (items m)" for x
  proof
    assume "case x of (a, _) \<Rightarrow> a \<noteq> h"
    then have "fst x \<noteq> h" by (simp add: case_prod_unfold)
    show "fst (data (snd x)) \<noteq> fst (data it)"
    proof
      assume "fst (data (snd x)) = fst (data it)"
      from key_unique [OF wf_distinct(2) [OF wf] _ mem this, of "fst x"] x
      have "x = (h, it)" by simp
      with \<open>fst x \<noteq> h\<close> show False by simp
    qed
  next
    assume ne: "fst (data (snd x)) \<noteq> fst (data it)"
    have "fst x \<noteq> h"
    proof
      assume "fst x = h"
      with x have "(h, snd x) \<in> set (items m)" by (metis prod.collapse)
      with wf_distinct(1) [OF wf] mem have "snd x = it"
        by (meson eq_key_imp_eq_value)
      with ne show False by simp
    qed
    then show "case x of (a, _) \<Rightarrow> a \<noteq> h" by (simp add: case_prod_unfold)
  qed
  then have "filter (\<lambda>(a, _). a \<noteq> h) (items m) =
             filter (\<lambda>x. fst (data (snd x)) \<noteq> fst (data it)) (items m)"
    by (intro filter_cong) auto
  then show ?thesis
    by (simp add: unlink_def to_list_def filter_map comp_def case_prod_unfold)
qed

lemma wf_unlink:
  assumes wf: "wf m None" and it: "deref m h = Some it"
  shows "wf (unlink m h (id_in_table it)) None"
  unfolding wf_def
proof (intro conjI allI impI)
  let ?n = "length (table m)"
  let ?hash = "id_in_table it"
  let ?m = "unlink m h ?hash"
  from wf_node [OF wf it] have hash: "?hash < ?n" "table m ! ?hash = Some h" by simp_all
  show "distinct (map fst (items ?m))"
    using wf_distinct(1) [OF wf] by (simp add: addrs_unlink)
  show "distinct (map fst (to_list ?m))"
    using wf_distinct(2) [OF wf] by (simp add: to_list_unlink [OF wf it] filter_map [symmetric] comp_def distinct_map_filter)
  {
    fix i b
    assume i: "i < length (table ?m)" and b: "table ?m ! i = Some b"
    from i have i': "i < ?n" by simp
    show "Some b \<noteq> None" by simp
    from b i' have ne: "i \<noteq> ?hash" by (cases "i = ?hash") auto
    with b have ti: "table m ! i = Some b" by simp
    have "b \<noteq> h"
    proof
      assume "b = h"
      with ti have "table m ! i = Some h" by simp
      from table_inj [OF wf this hash(2) i' hash(1)] ne show False by simp
    qed
    moreover from slot_wf [OF wf i' ti] obtain it' where "deref m b = Some it'" "id_in_table it' = i"
        "(hasher m (fst (data it')) + distance_to_ideal it') mod ?n = i"
      by metis
    ultimately show "\<exists>it. deref ?m b = Some it \<and> id_in_table it = i \<and>
            (hasher ?m (fst (data it)) + distance_to_ideal it) mod length (table ?m) = i"
      by (simp add: deref_unlink)
  }
  {
    fix b it'
    assume d: "deref ?m b = Some it'"
    then have bh: "b \<noteq> h" and d': "deref m b = Some it'"
      by (auto simp: deref_unlink split: if_splits)
    from wf_node(1,2) [OF wf d']
    have *: "id_in_table it' < ?n" "table m ! id_in_table it' = Some b" by auto
    with hash(2) bh have "id_in_table it' \<noteq> ?hash" by auto
    with * show "id_in_table it' < length (table ?m)" "table ?m ! id_in_table it' = Some b"
      by simp_all
  }
qed

lemma slot_unlink:
  assumes wf: "wf m None" and it: "deref m h = Some it" and i: "i < length (table m)"
  shows "slot (unlink m h (id_in_table it)) i = (if i = id_in_table it then None else slot m i)"
proof (cases "i = id_in_table it")
  case True
  then show ?thesis using i by (simp add: slot_def)
next
  case False
  from wf_node [OF wf it] have hash: "id_in_table it < length (table m)"
    "table m ! id_in_table it = Some h" by simp_all
  have "table m ! i \<noteq> Some h"
    using table_inj [OF wf _ hash(2) i hash(1)] False by auto
  with False show ?thesis
    by (auto simp: slot_def deref_unlink split: option.splits)
qed

lemma erase_it_unfold:
  assumes "deref m h = Some it" "id_in_table it < length (table m)"
  shows "erase_it m (Some h) =
         erase_loop (unlink m h (id_in_table it)) (id_in_table it)
           (Suc (id_in_table it) mod length (table m))"
  using assms by (simp add: erase_it_def unlink_def Let_def)

lemma erase_it_correct:
  assumes inv: "inv0 m" and it: "deref m h = Some it"
    and e: "e < length (table m)" "table m ! e = None"
  shows "\<exists>m'. erase_it m (Some h) = Some m' \<and> inv0 m' \<and> hasher m' = hasher m \<and>
           length (table m') = length (table m) \<and>
           to_list m' = filter (\<lambda>kv. fst kv \<noteq> fst (data it)) (to_list m) \<and>
           map fst (items m') = filter (\<lambda>a. a \<noteq> h) (map fst (items m))"
proof -
  let ?n = "length (table m)"
  let ?hash = "id_in_table it"
  let ?m = "unlink m h ?hash"
  from inv have wf: "wf m None" and rh: "robin_hood ?n (dist_at m)"
    by (simp_all add: inv0_def)
  from wf_node [OF wf it] have hash: "?hash < ?n" "table m ! ?hash = Some h"
    "slot m ?hash = Some it" by simp_all
  have wf': "wf ?m None" by (rule wf_unlink [OF wf it])
  have "robin_hood ?n ((dist_at ?m)(?hash := Some (distance_to_ideal it)))"
  proof (rule robin_hood_cong [OF rh])
    fix i
    assume "i < ?n"
    from slot_unlink [OF wf it this] hash(3)
    show "((dist_at ?m)(?hash := Some (distance_to_ideal it))) i = dist_at m i"
      by (simp add: dist_at_def)
  qed
  with wf' hash(1) have sh: "shifting ?m ?hash"
    unfolding shifting_def by auto
  have ne: "e \<noteq> ?hash" using e(2) hash(2) by auto
  have "Suc ?hash mod ?n < ?n" using e(1) by (rule mod_lt)
  obtain k where "(Suc ?hash mod ?n + k) mod ?n = e"
    using mod_reach [OF e(1)] by blast
  with erase_loop_correct [of ?m ?hash e k] sh e ne
  obtain m' where m': "erase_loop ?m ?hash (Suc ?hash mod ?n) = Some m'" "inv0 m'" "same_content ?m m'"
    by auto
  with erase_it_unfold [OF it hash(1)] to_list_unlink [OF wf it, of ?hash] show ?thesis
    by (simp add: same_content_def addrs_unlink)
qed

lemma round_half_even_of_int [simp]: "round_half_even (of_int k) = k"
  by (simp add: round_half_even_def Let_def)

lemma round_half_even_cases:
  "round_half_even x = \<lfloor>x\<rfloor> \<and> x - of_int \<lfloor>x\<rfloor> \<le> 1 / 2 \<or>
   round_half_even x = \<lfloor>x\<rfloor> + 1 \<and> 1 / 2 \<le> x - of_int \<lfloor>x\<rfloor>"
  by (auto simp: round_half_even_def Let_def)

lemma round_half_even_error: "\<bar>of_int (round_half_even x) - x\<bar> \<le> 1 / 2"
proof -
  have "of_int \<lfloor>x\<rfloor> \<le> x" "x < of_int \<lfloor>x\<rfloor> + 1" by linarith+
  with round_half_even_cases [of x] show ?thesis by auto
qed

lemma round_half_even_mono:
  assumes "x \<le> y"
  shows "round_half_even x \<le> round_half_even y"
proof -
  have fl: "\<lfloor>x\<rfloor> \<le> \<lfloor>y\<rfloor>" using assms by (rule floor_mono)
  show ?thesis
  proof (cases "\<lfloor>x\<rfloor> = \<lfloor>y\<rfloor>")
    case True
    with assms have "x - of_int \<lfloor>x\<rfloor> \<le> y - of_int \<lfloor>y\<rfloor>" by simp
    with True show ?thesis
      by (auto simp: round_half_even_def Let_def)
  next
    case False
    with fl have "\<lfloor>x\<rfloor> + 1 \<le> \<lfloor>y\<rfloor>" by simp
    with round_half_even_cases [of x] round_half_even_cases [of y] show ?thesis by auto
  qed
qed

lemma binade_bounds:
  assumes "0 < x"
  shows "2 powi binade x \<le> x" "x < 2 powi (binade x + 1)"
proof -
  obtain a b where q: "quotient_of x = (a, b)" by (cases "quotient_of x")
  then have b: "0 < b" and x: "x = of_int a / of_int b"
    by (auto dest: quotient_of_denom_pos quotient_of_div)
  with assms have a: "0 < a" by (simp add: zero_less_divide_iff)
  define La where "La = floorlog 2 (nat a)"
  define Lb where "Lb = floorlog 2 (nat b)"
  define e0 where "e0 = int La - int Lb"
  have La: "2 ^ (La - 1) \<le> nat a" "nat a < 2 ^ La"
    using floorlog_bounds [of "nat a" 2] a by (simp_all add: La_def)
  have Lb: "2 ^ (Lb - 1) \<le> nat b" "nat b < 2 ^ Lb"
    using floorlog_bounds [of "nat b" 2] b by (simp_all add: Lb_def)
  have La0: "0 < La" using La(2) a by (cases La) auto
  have Lb0: "0 < Lb" using Lb(2) b by (cases Lb) auto
  have ia: "2 ^ (La - 1) \<le> a" "a < 2 ^ La"
    using La a by (simp_all add: le_nat_iff nat_less_iff)
  have ib: "2 ^ (Lb - 1) \<le> b" "b < 2 ^ Lb"
    using Lb b by (simp_all add: le_nat_iff nat_less_iff)
  have ra: "(2::rat) ^ (La - 1) \<le> of_int a" "(of_int a :: rat) < 2 ^ La"
    using ia by simp_all
  have rb: "(2::rat) ^ (Lb - 1) \<le> of_int b" "(of_int b :: rat) < 2 ^ Lb"
    using ib by simp_all
  have bp: "(0::rat) < of_int b" using b by simp
  have up: "x < 2 powi (e0 + 1)"
  proof -
    have "x * of_int b < 2 ^ La" using x bp ra(2) by simp
    also have "(2::rat) ^ La = 2 powi (e0 + 1) * 2 ^ (Lb - 1)"
      using Lb0 by (simp add: e0_def power_int_add power_int_diff flip: power_int_of_nat)
    also have "\<dots> \<le> 2 powi (e0 + 1) * of_int b"
      by (rule mult_left_mono) (use ib(1) in simp_all)
    finally show ?thesis using bp by simp
  qed
  have lo: "2 powi (e0 - 1) \<le> x"
  proof -
    have "(2::rat) powi (e0 - 1) * of_int b \<le> 2 powi (e0 - 1) * 2 ^ Lb"
      by (rule mult_left_mono) (use ib(2) in simp_all)
    also have "\<dots> = 2 ^ (La - 1)"
      using La0 by (simp add: e0_def power_int_add power_int_diff flip: power_int_of_nat)
    also have "\<dots> \<le> x * of_int b" using x bp ra(1) by simp
    finally show ?thesis using bp by simp
  qed
  have bd: "binade x = (if x < 2 powi e0 then e0 - 1 else e0)"
    by (simp add: binade_def q e0_def La_def Lb_def)
  show "2 powi binade x \<le> x" using lo by (simp add: bd)
  show "x < 2 powi (binade x + 1)" using up by (simp add: bd)
qed

lemma binade_unique:
  assumes "0 < x" "2 powi e \<le> x" "x < 2 powi (e + 1)"
  shows "binade x = e"
proof (rule ccontr)
  assume ne: "binade x \<noteq> e"
  note b = binade_bounds [OF assms(1)]
  show False
  proof (cases "e < binade x")
    case True
    then have "(2::rat) powi (e + 1) \<le> 2 powi binade x"
      by (intro power_int_increasing) auto
    with b(1) assms(3) show False by simp
  next
    case False
    with ne have "(2::rat) powi (binade x + 1) \<le> 2 powi e"
      by (intro power_int_increasing) auto
    with b(2) assms(2) show False by simp
  qed
qed

lemma binade_mono:
  assumes "0 < x" "x \<le> y"
  shows "binade x \<le> binade y"
proof (rule ccontr)
  assume "\<not> binade x \<le> binade y"
  then have "(2::rat) powi (binade y + 1) \<le> 2 powi binade x"
    by (intro power_int_increasing) auto
  with binade_bounds(1) [OF assms(1)] binade_bounds(2) [of y] assms show False by simp
qed

lemma two_powi_pos [simp]: "(0::rat) < 2 powi e"
  by (simp add: zero_less_power_int)

lemma two_powi_less_D:
  assumes "(2::rat) powi m < 2 powi n"
  shows "m < n"
proof (rule ccontr)
  assume "\<not> m < n"
  then have "(2::rat) powi n \<le> 2 powi m"
    by (intro power_int_increasing) auto
  with assms show False by simp
qed

lemma scaled_bounds:
  assumes "0 < x" "0 < p"
  shows "2 ^ (p - 1) \<le> x / 2 powi (binade x - int p + 1)"
    "x / 2 powi (binade x - int p + 1) < 2 ^ p"
proof -
  let ?u = "(2::rat) powi (binade x - int p + 1)"
  have 1: "(2::rat) ^ (p - 1) * ?u = 2 powi binade x"
    using assms(2) by (simp add: power_int_add power_int_diff flip: power_int_of_nat)
  have 2: "(2::rat) ^ p * ?u = 2 powi (binade x + 1)"
    by (simp add: power_int_add power_int_diff flip: power_int_of_nat)
  from binade_bounds [OF assms(1)] 1 2
  have "2 ^ (p - 1) * ?u \<le> x" "x < 2 ^ p * ?u" by simp_all
  then show "2 ^ (p - 1) \<le> x / ?u" "x / ?u < 2 ^ p"
    by (simp_all add: pos_le_divide_eq pos_divide_less_eq)
qed

lemma round_half_even_power [simp]: "round_half_even (2 ^ k) = 2 ^ k"
  using round_half_even_of_int [of "2 ^ k"] by simp

lemma round_scaled_bounds:
  assumes "0 < x" "0 < p"
  shows "2 ^ (p - 1) \<le> round_half_even (x / 2 powi (binade x - int p + 1))"
    "round_half_even (x / 2 powi (binade x - int p + 1)) \<le> 2 ^ p"
proof -
  let ?y = "x / 2 powi (binade x - int p + 1)"
  from scaled_bounds [OF assms] have "of_int (2 ^ (p - 1)) \<le> ?y" "?y \<le> of_int (2 ^ p)"
    by simp_all
  from round_half_even_mono [OF this(1)] round_half_even_mono [OF this(2)]
  show "2 ^ (p - 1) \<le> round_half_even ?y" "round_half_even ?y \<le> 2 ^ p"
    by simp_all
qed

lemma round_to_bounds:
  assumes "0 < x" "0 < p"
  shows "2 powi binade x \<le> round_to p x" "round_to p x \<le> 2 powi (binade x + 1)"
proof -
  let ?u = "(2::rat) powi (binade x - int p + 1)"
  let ?r = "round_half_even (x / ?u)"
  have 1: "(2::rat) ^ (p - 1) * ?u = 2 powi binade x"
    using assms(2) by (simp add: power_int_add power_int_diff flip: power_int_of_nat)
  have 2: "(2::rat) ^ p * ?u = 2 powi (binade x + 1)"
    by (simp add: power_int_add power_int_diff flip: power_int_of_nat)
  have r: "round_to p x = of_int ?r * ?u"
    using assms(1) by (simp add: round_to_def Let_def)
  from round_scaled_bounds [OF assms]
  have "(2::rat) ^ (p - 1) \<le> of_int ?r" "(of_int ?r :: rat) \<le> 2 ^ p"
    by simp_all
  then have "(2::rat) ^ (p - 1) * ?u \<le> of_int ?r * ?u" "of_int ?r * ?u \<le> 2 ^ p * ?u"
    by (simp_all add: mult_right_mono)
  then show "2 powi binade x \<le> round_to p x" "round_to p x \<le> 2 powi (binade x + 1)"
    unfolding r 1 2 .
qed

lemma round_to_pos: "0 < x \<Longrightarrow> 0 < p \<Longrightarrow> 0 < round_to p x"
  using round_to_bounds(1) [of x p] two_powi_pos [of "binade x"] by linarith

lemma round_to_nonneg: "0 < p \<Longrightarrow> 0 \<le> round_to p x"
  using round_to_pos [of x p] by (cases "0 < x") (auto simp: round_to_def)

lemma round_to_mono:
  assumes "x \<le> y" "0 < p"
  shows "round_to p x \<le> round_to p y"
proof (cases "0 < x")
  case False
  then have "round_to p x = 0" by (simp add: round_to_def)
  with round_to_nonneg [OF assms(2)] show ?thesis by simp
next
  case True
  with assms have y: "0 < y" by simp
  show ?thesis
  proof (cases "binade x = binade y")
    case True
    let ?u = "(2::rat) powi (binade y - int p + 1)"
    have "x / ?u \<le> y / ?u" using assms(1) by (simp add: divide_right_mono)
    from round_half_even_mono [OF this]
    have "(of_int (round_half_even (x / ?u)) :: rat) * ?u \<le> of_int (round_half_even (y / ?u)) * ?u"
      by (simp add: mult_right_mono)
    with True \<open>0 < x\<close> y show ?thesis by (simp add: round_to_def Let_def)
  next
    case False
    with binade_mono [OF \<open>0 < x\<close> assms(1)] have "binade x + 1 \<le> binade y" by simp
    then have "(2::rat) powi (binade x + 1) \<le> 2 powi binade y"
      by (intro power_int_increasing) auto
    with round_to_bounds(2) [OF \<open>0 < x\<close> assms(2)] round_to_bounds(1) [OF y assms(2)]
    show ?thesis by linarith
  qed
qed

lemma round_to_fix:
  assumes "x = of_int k * 2 powi j" "0 < k" "k < 2 ^ p"
  shows "round_to p x = x"
proof -
  have x: "0 < x" using assms(1,2) by simp
  let ?u = "(2::rat) powi (binade x - int p + 1)"
  have "2 powi binade x \<le> x" using binade_bounds(1) [OF x] .
  also have "x < 2 ^ p * 2 powi j"
  proof -
    have "(of_int k :: rat) < 2 ^ p" using assms(3) by simp
    then show ?thesis unfolding assms(1) by (rule mult_strict_right_mono) simp
  qed
  also have "(2::rat) ^ p * 2 powi j = 2 powi (int p + j)"
    by (simp add: power_int_add flip: power_int_of_nat)
  finally have "(2::rat) powi binade x < 2 powi (int p + j)" .
  then have "binade x < int p + j"
    by (rule two_powi_less_D)
  then have "0 \<le> j - (binade x - int p + 1)" by simp
  then obtain d where d: "j - (binade x - int p + 1) = int d"
    using nonneg_int_cases by blast
  have "x / ?u = of_int k * 2 powi (j - (binade x - int p + 1))"
    unfolding assms(1) by (simp add: power_int_diff)
  also have "\<dots> = of_int (k * 2 ^ d)" unfolding d by simp
  finally have "round_half_even (x / ?u) = k * 2 ^ d"
    by (simp only: round_half_even_of_int)
  then have "round_to p x = of_int (k * 2 ^ d) * ?u"
    using x by (simp add: round_to_def Let_def)
  also have "\<dots> = of_int k * (2 powi int d * ?u)" by simp
  also have "2 powi int d * ?u = (2::rat) powi j"
    unfolding d [symmetric] by (simp add: power_int_diff)
  finally show ?thesis using assms(1) by simp
qed

lemma round_to_twice:
  assumes "0 < x"
  shows "round_to p (2 * x) = 2 * round_to p x"
proof -
  have "binade (2 * x) = binade x + 1"
  proof (rule binade_unique)
    show "0 < 2 * x" using assms by simp
    show "2 powi (binade x + 1) \<le> 2 * x"
      using binade_bounds(1) [OF assms] by (simp add: power_int_add)
    show "2 * x < 2 powi (binade x + 1 + 1)"
      using binade_bounds(2) [OF assms] by (simp add: power_int_add)
  qed
  then have "2 powi (binade (2 * x) - int p + 1) = 2 * (2::rat) powi (binade x - int p + 1)"
    by (simp add: power_int_add power_int_diff)
  with assms show ?thesis by (simp add: round_to_def Let_def)
qed

lemma round_to_error:
  assumes "0 < x"
  shows "\<bar>round_to p x - x\<bar> \<le> 2 powi (binade x - int p + 1) / 2"
proof -
  let ?u = "(2::rat) powi (binade x - int p + 1)"
  have "round_to p x - x = (of_int (round_half_even (x / ?u)) - x / ?u) * ?u"
    using assms by (simp add: round_to_def Let_def algebra_simps)
  then have "\<bar>round_to p x - x\<bar> = \<bar>of_int (round_half_even (x / ?u)) - x / ?u\<bar> * ?u"
    by (simp add: abs_mult)
  also have "\<dots> \<le> 1 / 2 * ?u"
    by (rule mult_right_mono [OF round_half_even_error]) simp
  finally show ?thesis by simp
qed

lemma round_half_even_down:
  assumes "of_int z \<le> x" "x - of_int z < 1 / 2"
  shows "round_half_even x = z"
proof -
  have "\<lfloor>x\<rfloor> = z" using assms by (intro floor_unique) auto
  with assms show ?thesis by (simp add: round_half_even_def)
qed

lemma round_half_even_up:
  assumes "1 / 2 < x - of_int z" "x < of_int z + 1"
  shows "round_half_even x = z + 1"
proof -
  have "\<lfloor>x\<rfloor> = z" using assms by (intro floor_unique) auto
  with assms show ?thesis by (simp add: round_half_even_def)
qed

lemma binade_three_fifths: "binade (3 / 5) = - 1"
  by (rule binade_unique) simp_all

lemma to_double_three_fifths: "to_double (3 / 5) = 5404319552844595 / 9007199254740992"
proof -
  have "round_half_even (27021597764222976 / 5) = 5404319552844595"
    by (rule round_half_even_down) simp_all
  then show ?thesis
    by (simp add: to_double_def round_to_def binade_three_fifths)
qed

lemma binade_aux: "binade (5404319552844595 / 9007199254740992) = - 1"
  by (rule binade_unique) simp_all

lemma MAX_LOAD_FACTOR_eq: "MAX_LOAD_FACTOR = 5033165 / 8388608"
proof -
  have "round_half_even (5404319552844595 / 536870912) = 10066329 + 1"
    by (rule round_half_even_up) simp_all
  then show ?thesis
    by (simp add: MAX_LOAD_FACTOR_def to_double_three_fifths to_float_def round_to_def binade_aux)
qed

lemma to_double_of_nat:
  assumes "k < 2 ^ 53"
  shows "to_double (of_nat k) = of_nat k"
proof (cases "k = 0")
  case True
  then show ?thesis by (simp add: to_double_def round_to_def)
next
  case False
  show ?thesis
    unfolding to_double_def
    by (rule round_to_fix [where k = "int k" and j = 0]) (use assms False in simp_all)
qed

lemma to_double_one: "to_double 1 = 1"
  using to_double_of_nat [of 1] by simp

lemma to_double_half: "to_double (1 / 2) = 1 / 2"
  unfolding to_double_def
  by (rule round_to_fix [where k = 1 and j = "- 1"]) simp_all

lemma to_double_MAX: "to_double MAX_LOAD_FACTOR = MAX_LOAD_FACTOR"
  unfolding to_double_def MAX_LOAD_FACTOR_eq
  by (rule round_to_fix [where k = 5033165 and j = "- 23"]) simp_all

lemma to_double_mono: "x \<le> y \<Longrightarrow> to_double x \<le> to_double y"
  unfolding to_double_def by (rule round_to_mono) simp_all

lemma to_double_pos: "0 < x \<Longrightarrow> 0 < to_double x"
  unfolding to_double_def by (rule round_to_pos) simp_all

lemma load_below_max_space:
  assumes "load_below_max s n"
  shows "s + 1 < n"
proof (rule ccontr)
  assume "\<not> s + 1 < n"
  then have le: "(of_nat n :: rat) \<le> of_nat (s + 1)" by simp
  from assms have n: "n \<noteq> 0"
    and lt: "to_double (to_double (of_nat (s + 1)) / to_double (of_nat n)) < MAX_LOAD_FACTOR"
    by (simp_all add: load_below_max_def)
  have p: "0 < to_double (of_nat n)" using n by (intro to_double_pos) simp
  have "1 \<le> to_double (of_nat (s + 1)) / to_double (of_nat n)"
    using to_double_mono [OF le] p by (simp add: pos_le_divide_eq)
  from to_double_mono [OF this] have "1 \<le> to_double (to_double (of_nat (s + 1)) / to_double (of_nat n))"
    by (simp add: to_double_one)
  with lt show False by (simp add: MAX_LOAD_FACTOR_eq)
qed

lemma load_below_max_grown:
  assumes "s < n" "2 * n \<le> n'" "k \<le> s"
  shows "load_below_max k n'"
proof -
  let ?A = "to_double (of_nat (k + 1))"
  let ?C = "to_double (of_nat n)"
  let ?B = "to_double (of_nat n')"
  have n: "(0::rat) < of_nat n" using assms(1) by simp
  have p: "0 < ?C" using n by (rule to_double_pos)
  have "(of_nat (k + 1) :: rat) \<le> of_nat n" using assms(1,3) by simp
  then have A: "?A \<le> ?C" by (rule to_double_mono)
  have "(2 * of_nat n :: rat) \<le> of_nat n'"
    using assms(2) by (metis of_nat_le_iff of_nat_mult of_nat_numeral)
  from to_double_mono [OF this] have B: "2 * ?C \<le> ?B"
    using round_to_twice [OF n, of 53] by (simp add: to_double_def)
  with p have pB: "0 < ?B" by simp
  have "?A / ?B \<le> ?C / (2 * ?C)"
    using A B p pB by (intro frac_le) simp_all
  also have "\<dots> = 1 / 2" using p by simp
  finally have "to_double (?A / ?B) \<le> 1 / 2"
    using to_double_mono [of "?A / ?B" "1 / 2"] by (simp add: to_double_half)
  moreover have "n' \<noteq> 0" using assms(1,2) by auto
  ultimately show ?thesis
    by (simp add: load_below_max_def MAX_LOAD_FACTOR_eq)
qed

lemma load_below_max_mono:
  assumes "load_below_max s n" "k \<le> s"
  shows "load_below_max k n"
proof -
  from assms(1) have n: "n \<noteq> 0"
    and lt: "to_double (to_double (of_nat (s + 1)) / to_double (of_nat n)) < MAX_LOAD_FACTOR"
    by (simp_all add: load_below_max_def)
  have p: "0 < to_double (of_nat n)" using n by (intro to_double_pos) simp
  have "(of_nat (k + 1) :: rat) \<le> of_nat (s + 1)" using assms(2) by simp
  from to_double_mono [OF this]
  have "to_double (of_nat (k + 1)) / to_double (of_nat n) \<le>
        to_double (of_nat (s + 1)) / to_double (of_nat n)"
    using p by (simp add: divide_right_mono)
  from to_double_mono [OF this] lt n show ?thesis
    by (simp add: load_below_max_def)
qed

lemma to_double_below_MAX:
  assumes "0 < q" "q + 1 / 2 ^ 54 < MAX_LOAD_FACTOR"
  shows "to_double q < MAX_LOAD_FACTOR"
proof -
  have "q < 2 powi 0" using assms(2) by (simp add: MAX_LOAD_FACTOR_eq)
  with binade_bounds(1) [OF assms(1)] have "(2::rat) powi binade q < 2 powi 0" by simp
  then have "binade q < 0" by (rule two_powi_less_D)
  then have "(2::rat) powi (binade q - int 53 + 1) \<le> 2 powi (- 53)"
    by (intro power_int_increasing) auto
  with round_to_error [OF assms(1), of 53]
  have "\<bar>to_double q - q\<bar> \<le> 2 powi (- 53) / 2"
    by (simp add: to_double_def)
  moreover have "(2::rat) powi (- 53) / 2 = 1 / 2 ^ 54" by simp
  ultimately have "\<bar>to_double q - q\<bar> \<le> 1 / 2 ^ 54" by (simp only:)
  then have "to_double q \<le> q + 1 / 2 ^ 54" by linarith
  with assms(2) show ?thesis by simp
qed

lemma load_below_max_iff:
  assumes "n < 2 ^ 31"
  shows "load_below_max s n \<longleftrightarrow> (s + 1) * 8388608 < 5033165 * n"
proof (cases "s + 1 < n")
  case False
  then have "\<not> (s + 1) * 8388608 < 5033165 * n" by simp
  with False load_below_max_space [of s n] show ?thesis by blast
next
  case True
  let ?q = "(of_nat (s + 1) :: rat) / of_nat n"
  from True assms have "s + 1 < 2 ^ 53" "n < 2 ^ 53" "n \<noteq> 0" by simp_all
  then have lb: "load_below_max s n \<longleftrightarrow> to_double ?q < MAX_LOAD_FACTOR"
    by (simp add: load_below_max_def to_double_of_nat del: of_nat_add of_nat_Suc)
  have n: "(0::rat) < of_nat n" using \<open>n \<noteq> 0\<close> by simp
  have q: "0 < ?q" using n by simp
  have qc: "?q < MAX_LOAD_FACTOR \<longleftrightarrow> (s + 1) * 8388608 < 5033165 * n"
  proof -
    have "?q < MAX_LOAD_FACTOR \<longleftrightarrow> (of_nat (s + 1) :: rat) * 8388608 < 5033165 * of_nat n"
      using n unfolding MAX_LOAD_FACTOR_eq by (simp add: field_simps del: of_nat_add of_nat_Suc)
    also have "\<dots> \<longleftrightarrow> (of_nat ((s + 1) * 8388608) :: rat) < of_nat (5033165 * n)"
      by (simp only: of_nat_mult of_nat_numeral)
    also have "\<dots> \<longleftrightarrow> (s + 1) * 8388608 < 5033165 * n"
      by (rule of_nat_less_iff)
    finally show ?thesis .
  qed
  show ?thesis
  proof
    assume "load_below_max s n"
    with lb have lt: "to_double ?q < MAX_LOAD_FACTOR" by simp
    have "?q < MAX_LOAD_FACTOR"
    proof (rule ccontr)
      assume "\<not> ?q < MAX_LOAD_FACTOR"
      then have "MAX_LOAD_FACTOR \<le> ?q" by simp
      from to_double_mono [OF this] lt show False by (simp add: to_double_MAX)
    qed
    with qc show "(s + 1) * 8388608 < 5033165 * n" by simp
  next
    assume lt: "(s + 1) * 8388608 < 5033165 * n"
    then have "(s + 1) * 8388608 + 1 \<le> 5033165 * n" by simp
    then have "(of_nat ((s + 1) * 8388608 + 1) :: rat) \<le> of_nat (5033165 * n)"
      by (simp only: of_nat_le_iff)
    then have 1: "(of_nat (s + 1) :: rat) * 8388608 + 1 \<le> 5033165 * of_nat n"
      by (simp only: of_nat_mult of_nat_numeral of_nat_add of_nat_1)
    have "(of_nat n :: rat) < 2 ^ 31"
      using assms by (metis of_nat_less_iff of_nat_numeral of_nat_power)
    then have 2: "(of_nat n :: rat) * 8388608 < 2 ^ 54" by simp
    have "?q + 1 / 2 ^ 54 < ?q + 1 / (of_nat n * 8388608)"
      using 2 n by (simp add: frac_less2 del: of_nat_add of_nat_Suc)
    also have "\<dots> = (of_nat (s + 1) * 8388608 + 1) / (of_nat n * 8388608)"
      using n by (simp add: field_simps del: of_nat_add of_nat_Suc)
    also have "\<dots> \<le> (5033165 * of_nat n) / (of_nat n * 8388608)"
      using 1 n by (intro divide_right_mono) simp_all
    also have "\<dots> = MAX_LOAD_FACTOR"
      using n by (simp add: MAX_LOAD_FACTOR_eq)
    finally have "to_double ?q < MAX_LOAD_FACTOR"
      by (rule to_double_below_MAX [OF q])
    with lb show "load_below_max s n" by simp
  qed
qed

lemma trial_division_iff:
  "trial_division c dv \<longleftrightarrow> (\<forall>d. dv \<le> d \<and> d * d \<le> c \<longrightarrow> c mod d \<noteq> 0)"
proof (induction c dv rule: trial_division.induct)
  case (1 c dv)
  show ?case
  proof (cases "dv * dv \<le> c")
    case False
    have "\<not> d * d \<le> c" if "dv \<le> d" for d
    proof -
      from that have "dv * dv \<le> d * d" by (simp add: mult_le_mono)
      with False show ?thesis by simp
    qed
    with False show ?thesis by (subst trial_division.simps) auto
  next
    case True
    show ?thesis
    proof (cases "c mod dv = 0")
      case z: True
      with True show ?thesis by (subst trial_division.simps) auto
    next
      case nz: False
      have "trial_division c dv = trial_division c (dv + 1)"
        using True nz by (subst trial_division.simps) simp
      also have "\<dots> \<longleftrightarrow> (\<forall>d. dv + 1 \<le> d \<and> d * d \<le> c \<longrightarrow> c mod d \<noteq> 0)"
        using "1.IH" [OF True nz] .
      also have "\<dots> \<longleftrightarrow> (\<forall>d. dv \<le> d \<and> d * d \<le> c \<longrightarrow> c mod d \<noteq> 0)"
      proof (intro iffI allI impI)
        fix d
        assume a: "\<forall>d. dv + 1 \<le> d \<and> d * d \<le> c \<longrightarrow> c mod d \<noteq> 0" and d: "dv \<le> d \<and> d * d \<le> c"
        show "c mod d \<noteq> 0"
        proof (cases "d = dv")
          case True
          with nz show ?thesis by simp
        next
          case False
          with d have "dv + 1 \<le> d" by simp
          with a d show ?thesis by blast
        qed
      next
        fix d
        assume a: "\<forall>d. dv \<le> d \<and> d * d \<le> c \<longrightarrow> c mod d \<noteq> 0" and d: "dv + 1 \<le> d \<and> d * d \<le> c"
        then show "c mod d \<noteq> 0" by simp
      qed
      finally show ?thesis .
    qed
  qed
qed

lemma trial_division_prime:
  assumes "2 \<le> c"
  shows "trial_division c 2 \<longleftrightarrow> prime_nat c"
proof
  assume td: "trial_division c 2"
  show "prime_nat c"
    unfolding prime_nat_def
  proof (intro conjI allI impI)
    show "1 < c" using assms by simp
    fix d
    assume dv: "d dvd c"
    then obtain q where q: "c = d * q" ..
    show "d = 1 \<or> d = c"
    proof (rule ccontr)
      assume n: "\<not> (d = 1 \<or> d = c)"
      have "d \<noteq> 0"
      proof
        assume "d = 0"
        with q assms show False by simp
      qed
      have "q \<noteq> 0"
      proof
        assume "q = 0"
        with q assms show False by simp
      qed
      note \<open>d \<noteq> 0\<close> \<open>q \<noteq> 0\<close>
      moreover have "q \<noteq> 1" using q n by auto
      ultimately have d: "2 \<le> d" and q2: "2 \<le> q" using n by arith+
      have all: "c mod e \<noteq> 0" if "2 \<le> e" "e * e \<le> c" for e
        using iffD1 [OF trial_division_iff td] that by blast
      show False
      proof (cases "d \<le> q")
        case True
        then have "d * d \<le> d * q" by (rule mult_le_mono2)
        then have "d * d \<le> c" by (simp only: q)
        from all [OF d this] dv show False by simp
      next
        case False
        then have "q \<le> d" by simp
        then have "q * q \<le> d * q" by (rule mult_le_mono1)
        then have "q * q \<le> c" by (simp only: q)
        from all [OF q2 this] q show False by simp
      qed
    qed
  qed
next
  assume p: "prime_nat c"
  show "trial_division c 2"
  proof (subst trial_division_iff, intro allI impI)
    fix d
    assume d: "2 \<le> d \<and> d * d \<le> c"
    show "c mod d \<noteq> 0"
    proof
      assume "c mod d = 0"
      then have "d dvd c" by (simp add: dvd_eq_mod_eq_0)
      with p d have "d = c" unfolding prime_nat_def by auto
      with d have "c * c \<le> c * 1" by simp
      then have "c \<le> 1" using assms by (simp only: mult_le_cancel1)
      with assms show False by simp
    qed
  qed
qed

lemma exists_prime_ge: "\<exists>p. c \<le> p \<and> prime_nat p"
proof -
  let ?N = "fact c + (1::nat)"
  have N2: "2 \<le> ?N" by (simp add: Suc_le_eq)
  define p where "p = (LEAST d. 2 \<le> d \<and> d dvd ?N)"
  have "2 \<le> ?N \<and> ?N dvd ?N" using N2 by simp
  then have p: "2 \<le> p \<and> p dvd ?N" unfolding p_def by (rule LeastI)
  have least: "\<not> (2 \<le> d \<and> d dvd ?N)" if "d < p" for d
    using that not_less_Least unfolding p_def by blast
  have "prime_nat p"
    unfolding prime_nat_def
  proof (intro conjI allI impI)
    show "1 < p" using p by simp
    fix d
    assume d: "d dvd p"
    show "d = 1 \<or> d = p"
    proof (rule ccontr)
      assume n: "\<not> (d = 1 \<or> d = p)"
      from d p have "d \<noteq> 0" by (metis dvd_0_left not_numeral_le_zero)
      with n have "2 \<le> d" by simp
      moreover from d p have "d \<le> p" by (intro dvd_imp_le) simp_all
      with n have "d < p" by simp
      moreover have "d dvd ?N" using d p by (meson dvd_trans)
      ultimately show False using least by blast
    qed
  qed
  moreover have "c < p"
  proof (rule ccontr)
    assume "\<not> c < p"
    with p have "p dvd fact c" by (intro dvd_fact) simp_all
    with p have "p dvd 1" by (metis dvd_add_right_iff)
    with p show False by simp
  qed
  ultimately show ?thesis by (intro exI [of _ p]) simp
qed

lemma find_bucket_count_least:
  assumes "trial_division p 2" "c \<le> p" "\<And>q. c \<le> q \<Longrightarrow> q < p \<Longrightarrow> \<not> trial_division q 2"
  shows "find_bucket_count c = Some p"
  using assms(2,3)
proof (induction "p - c" arbitrary: c)
  case 0
  then have "c = p" by simp
  with assms(1) show ?case by (subst find_bucket_count.simps) simp
next
  case (Suc k)
  then have "c < p" by simp
  with Suc.prems have n: "\<not> trial_division c 2" by simp
  have "find_bucket_count (c + 1) = Some p"
    using Suc.hyps(2) Suc.prems \<open>c < p\<close> by (intro Suc.hyps(1)) simp_all
  with n show ?case by (subst find_bucket_count.simps) simp
qed

lemma find_bucket_count_correct:
  assumes "2 \<le> c"
  shows "\<exists>p. find_bucket_count c = Some p \<and> c \<le> p \<and> prime_nat p \<and>
           (\<forall>q. c \<le> q \<and> q < p \<longrightarrow> \<not> prime_nat q)"
proof -
  define p where "p = (LEAST p. c \<le> p \<and> prime_nat p)"
  from exists_prime_ge [of c] have p: "c \<le> p \<and> prime_nat p"
    unfolding p_def by (elim exE) (rule LeastI)
  have least: "\<not> prime_nat q" if "c \<le> q" "q < p" for q
    using that not_less_Least unfolding p_def by blast
  have "find_bucket_count c = Some p"
  proof (rule find_bucket_count_least)
    show "trial_division p 2" using p assms by (simp add: trial_division_prime)
    show "c \<le> p" using p by simp
    show "\<not> trial_division q 2" if "c \<le> q" "q < p" for q
      using least [OF that] that assms by (simp add: trial_division_prime)
  qed
  with p least show ?thesis by blast
qed

lemma find_bucket_count_returns: "\<exists>p. find_bucket_count c = Some p \<and> c \<le> p"
proof (cases "2 \<le> c")
  case True
  with find_bucket_count_correct show ?thesis by blast
next
  case False
  then have "\<not> 2 * 2 \<le> c" by simp
  then have "trial_division c 2" by (subst trial_division.simps) simp
  then show ?thesis by (subst find_bucket_count.simps) simp
qed

lemma exists_empty:
  assumes wf: "wf m None" and lt: "length (items m) < length (table m)"
  shows "\<exists>e<length (table m). table m ! e = None"
proof (rule ccontr)
  let ?n = "length (table m)"
  assume "\<not> (\<exists>e<?n. table m ! e = None)"
  then have occ: "\<And>i. i < ?n \<Longrightarrow> \<exists>h. table m ! i = Some h" by auto
  have inj: "inj_on (\<lambda>i. the (table m ! i)) {..<?n}"
  proof (rule inj_onI)
    fix i j
    assume i: "i \<in> {..<?n}" and j: "j \<in> {..<?n}"
      and eq: "the (table m ! i) = the (table m ! j)"
    from occ [of i] occ [of j] i j eq obtain h where "table m ! i = Some h" "table m ! j = Some h"
      by auto
    from table_inj [OF wf this] i j show "i = j" by simp
  qed
  have sub: "(\<lambda>i. the (table m ! i)) ` {..<?n} \<subseteq> set (map fst (items m))"
  proof
    fix a
    assume "a \<in> (\<lambda>i. the (table m ! i)) ` {..<?n}"
    then obtain i where i: "i < ?n" "a = the (table m ! i)" by auto
    with occ [of i] have ti: "table m ! i = Some a" by auto
    from slot_wf [OF wf i(1) ti] obtain it where "deref m a = Some it" by metis
    then show "a \<in> set (map fst (items m))"
      by (auto dest!: deref_Some_mem intro: rev_image_eqI)
  qed
  have "?n = card ((\<lambda>i. the (table m ! i)) ` {..<?n})"
    using inj by (simp add: card_image)
  also have "\<dots> \<le> card (set (map fst (items m)))"
    using sub by (intro card_mono) simp_all
  also have "\<dots> \<le> length (items m)"
    using card_length [of "map fst (items m)"] by simp
  finally show False using lt by simp
qed

lemma invar_size: 
  assumes "invar m"
  shows "size_hm m < length (table m)"
proof (cases "items m = []")
  case True
  with assms show ?thesis by (auto simp: invar_def size_hm_def START_BUCKET_COUNT_def)
next
  case False
  with assms have "load_below_max (size_hm m - 1) (length (table m))"
    by (simp add: invar_def)
  from load_below_max_space [OF this] show ?thesis by simp
qed

lemma invar_empty_slot:
  assumes "invar m"
  shows "\<exists>e<length (table m). table m ! e = None"
  using exists_empty [of m] invar_size [OF assms] assms
  by (simp add: invar_def inv0_def size_hm_def)

lemma mem_deref:
  assumes "wf m hand" "(h, it) \<in> set (items m)"
  shows "deref m h = Some it"
  using assms by (simp add: deref_def wf_distinct(1))

lemma key_deref:
  assumes "wf m hand" "key \<in> fst ` set (to_list m)"
  obtains h it where "deref m h = Some it" "fst (data it) = key"
proof -
  from assms(2) obtain a it where "(a, it) \<in> set (items m)" "fst (data it) = key"
    by (auto simp: keys_to_list)
  with mem_deref [OF assms(1)] that show ?thesis by blast
qed

lemma find_hm_invar_present:
  assumes "invar m" "deref m h = Some it"
  shows "find_hm m (fst (data it)) = Some (Some h)"
proof -
  from invar_empty_slot [OF assms(1)] obtain e where "e < length (table m)" "table m ! e = None"
    by blast
  with assms show ?thesis
    by (intro find_hm_present [where e = e]) (simp_all add: invar_def inv0_def)
qed

lemma find_hm_invar_absent:
  assumes "invar m" "key \<notin> fst ` set (to_list m)"
  shows "find_hm m key = Some None"
proof -
  from invar_empty_slot [OF assms(1)] obtain e where "e < length (table m)" "table m ! e = None"
    by blast
  with assms show ?thesis
    by (intro find_hm_absent [where e = e and hand = None]) (simp_all add: invar_def inv0_def)
qed

lemma insert_among_present:
  assumes "invar m" "fst x \<in> fst ` set (to_list m)"
  shows "insert_among used m x = Some m"
proof -
  from assms have "wf m None" by (simp add: invar_def inv0_def)
  from key_deref [OF this assms(2)] obtain h it where "deref m h = Some it" "fst (data it) = fst x"
    by blast
  with find_hm_invar_present [OF assms(1)] have "find_hm m (fst x) = Some (Some h)" by metis
  then show ?thesis by (subst insert_among.simps) simp
qed

lemma insert_hm_present:
  assumes "invar m" "fst x \<in> fst ` set (to_list m)"
  shows "insert_hm m x = Some m"
  unfolding insert_hm_def using assms by (rule insert_among_present)

lemma insert_among_fit:
  assumes "inv0 m" "fst x \<notin> fst ` set (to_list m)"
    and "load_below_max (size_hm m) (length (table m))"
  shows "insert_among used m x = emplace_and_probe used m x"
proof -
  from load_below_max_space [OF assms(3)] have "length (items m) < length (table m)"
    by (simp add: size_hm_def)
  from exists_empty [OF _ this] assms(1) obtain e where "e < length (table m)" "table m ! e = None"
    by (auto simp: inv0_def)
  with assms(1,2) have "find_hm m (fst x) = Some None"
    by (intro find_hm_absent [where e = e and hand = None]) (simp_all add: inv0_def)
  with assms(3) show ?thesis by (subst insert_among.simps) simp
qed

lemma insert_among_fit_correct:
  assumes "inv0 m" "fst x \<notin> fst ` set (to_list m)"
    and "load_below_max (size_hm m) (length (table m))"
  shows "\<exists>m'. insert_among used m x = Some m' \<and> inv0 m' \<and> hasher m' = hasher m \<and>
           length (table m') = length (table m) \<and> to_list m' = to_list m @ [x] \<and>
           map fst (items m') = map fst (items m) @ [new_addr used (items m)]"
proof -
  from load_below_max_space [OF assms(3)] have "length (items m) < length (table m)"
    by (simp add: size_hm_def)
  from exists_empty [OF _ this] assms(1) obtain e where "e < length (table m)" "table m ! e = None"
    by (auto simp: inv0_def)
  from emplace_and_probe_correct [OF assms(1,2) this] insert_among_fit [OF assms]
  show ?thesis by simp
qed

lemma size_to_list: "size_hm m = length (to_list m)"
  by (simp add: size_hm_def to_list_def)

lemma reinsert_correct:
  assumes "inv0 m" "distinct (map fst xs)" "fst ` set xs \<inter> fst ` set (to_list m) = {}"
    and "\<And>k. k < size_hm m + length xs \<Longrightarrow> load_below_max k (length (table m))"
    and "fst ` set (items m) \<inter> set used = {}"
  shows "\<exists>m'. for_each (\<lambda>x m. insert_among used m x) xs m = Some m' \<and> inv0 m' \<and>
           hasher m' = hasher m \<and> length (table m') = length (table m) \<and>
           to_list m' = to_list m @ xs \<and> fst ` set (items m') \<inter> set used = {}"
  using assms
proof (induction xs arbitrary: m)
  case Nil
  then show ?case by simp
next
  case (Cons x xs)
  have "load_below_max (size_hm m) (length (table m))"
    by (rule Cons.prems(4)) simp
  moreover have "fst x \<notin> fst ` set (to_list m)" using Cons.prems(3) by auto
  ultimately obtain m1 where m1: "insert_among used m x = Some m1" "inv0 m1" "hasher m1 = hasher m"
      "length (table m1) = length (table m)" "to_list m1 = to_list m @ [x]"
      "map fst (items m1) = map fst (items m) @ [new_addr used (items m)]"
    using insert_among_fit_correct [OF Cons.prems(1)] by blast
  have "distinct (map fst xs)" using Cons.prems(2) by simp
  moreover have "fst ` set xs \<inter> fst ` set (to_list m1) = {}"
    using Cons.prems(2,3) m1(5) by auto
  moreover have "load_below_max k (length (table m1))" if "k < size_hm m1 + length xs" for k
    using that m1(4,5) Cons.prems(4) [of k] by (simp add: size_to_list)
  moreover have "fst ` set (items m1) \<inter> set used = {}"
  proof -
    have "fst ` set (items m1) = set (map fst (items m1))" by simp
    also have "\<dots> = insert (new_addr used (items m)) (fst ` set (items m))"
      unfolding m1(6) by simp
    finally show ?thesis
      using Cons.prems(5) new_addr_unused [of used "items m"] by simp
  qed
  ultimately obtain m' where "for_each (\<lambda>x m. insert_among used m x) xs m1 = Some m'" "inv0 m'"
      "hasher m' = hasher m1" "length (table m') = length (table m1)" "to_list m' = to_list m1 @ xs"
      "fst ` set (items m') \<inter> set used = {}"
    using Cons.IH [OF m1(2)] by blast
  with m1 show ?case by simp
qed

lemma for_each_map: "for_each (\<lambda>a. f (g a)) xs s = for_each f (map g xs) s"
  by (induction xs arbitrary: s) (auto split: Option.bind_split)

lemma to_list_snd: "map (data \<circ> snd) (items m) = to_list m"
  by (simp add: to_list_def case_prod_unfold comp_def)

lemma inv0_fresh:
  "inv0 (m\<lparr>items := [], table := replicate p None\<rparr>)"
  by (simp add: inv0_def wf_def deref_def to_list_def robin_hood_def dist_at_def slot_def)

lemma rehash_if_needed_eq:
  "rehash_if_needed used m =
     (if load_below_max (size_hm m) (length (table m)) then Some m
      else Option.bind (find_bucket_count (length (table m) * 2)) (\<lambda>p.
             for_each (\<lambda>x m'. insert_among (used @ map fst (items m)) m' x) (to_list m)
               (m\<lparr>items := [], table := replicate p None\<rparr>)))"
  by (simp add: rehash_if_needed_def Let_def to_list_snd
      for_each_map [where f = "\<lambda>x m'. insert_among (used @ map fst (items m)) m' x" and g = data])

lemma insert_among_unfold:
  "insert_among used m x =
     Option.bind (find_hm m (fst x)) (\<lambda>it.
       if it \<noteq> None then Some m
       else Option.bind (rehash_if_needed used m) (\<lambda>m1. emplace_and_probe used m1 x))"
  unfolding rehash_if_needed_def Let_def by (rule insert_among.simps)

lemma insert_hm_unfold:
  "insert_hm m x =
     Option.bind (find_hm m (fst x)) (\<lambda>it.
       if it \<noteq> None then Some m
       else Option.bind (rehash_if_needed [] m) (\<lambda>m1. emplace_and_probe [] m1 x))"
  unfolding insert_hm_def by (rule insert_among_unfold)

lemma rehash_correct:
  assumes "invar m" "\<not> load_below_max (size_hm m) (length (table m))"
  shows "\<exists>m' p. rehash_if_needed used m = Some m' \<and> inv0 m' \<and> hasher m' = hasher m \<and>
           find_bucket_count (2 * length (table m)) = Some p \<and> length (table m') = p \<and>
           2 * length (table m) \<le> p \<and> prime_nat p \<and> to_list m' = to_list m"
proof -
  let ?n = "length (table m)"
  let ?u = "used @ map fst (items m)"
  from assms(1) have "2 \<le> 2 * ?n" by (simp add: invar_def START_BUCKET_COUNT_def)
  from find_bucket_count_correct [OF this] obtain p where
    p: "find_bucket_count (2 * ?n) = Some p" "2 * ?n \<le> p" "prime_nat p" by blast
  let ?m = "m\<lparr>items := [], table := replicate p None\<rparr>"
  from assms(1) have wf: "wf m None" by (simp add: invar_def inv0_def)
  have "load_below_max k (length (table ?m))" if "k < size_hm ?m + length (to_list m)" for k
  proof -
    from that have "k \<le> size_hm m" by (simp add: size_hm_def to_list_def)
    from load_below_max_grown [OF invar_size [OF assms(1)] p(2) this] show ?thesis by simp
  qed
  moreover have "distinct (map fst (to_list m))" using wf by (rule wf_distinct)
  moreover have "fst ` set (to_list m) \<inter> fst ` set (to_list ?m) = {}"
    by (simp add: to_list_def)
  moreover have "fst ` set (items ?m) \<inter> set ?u = {}" by simp
  ultimately obtain m' where
      "for_each (\<lambda>x m'. insert_among ?u m' x) (to_list m) ?m = Some m'" "inv0 m'"
      "hasher m' = hasher ?m" "length (table m') = length (table ?m)"
      "to_list m' = to_list ?m @ to_list m"
    using reinsert_correct [OF inv0_fresh [where m = m and p = p], of "to_list m" ?u] by blast
  then show ?thesis
    using assms(2) p by (simp add: rehash_if_needed_eq mult.commute to_list_def)
qed

lemma insert_among_new:
  assumes "invar m" "fst x \<notin> fst ` set (to_list m)"
  shows "\<exists>m'. insert_among used m x = Some m' \<and> invar m' \<and> hasher m' = hasher m \<and>
           to_list m' = to_list m @ [x] \<and>
           (if load_below_max (size_hm m) (length (table m))
            then length (table m') = length (table m)
            else find_bucket_count (2 * length (table m)) = Some (length (table m')))"
proof (cases "load_below_max (size_hm m) (length (table m))")
  case True
  from assms(1) have inv: "inv0 m" and st: "START_BUCKET_COUNT \<le> length (table m)"
    "prime_nat (length (table m))"
    by (simp_all add: invar_def)
  from insert_among_fit_correct [OF inv assms(2) True] obtain m' where
    m': "insert_among used m x = Some m'" "inv0 m'" "hasher m' = hasher m"
      "length (table m') = length (table m)" "to_list m' = to_list m @ [x]"
    by blast
  have "size_hm m' - 1 = size_hm m" using m'(5) by (simp add: size_to_list)
  with True m' st have "invar m'" by (simp add: invar_def)
  with m' True show ?thesis by simp
next
  case False
  let ?n = "length (table m)"
  from rehash_correct [OF assms(1) False] obtain m1 p where
    m1: "rehash_if_needed used m = Some m1" "inv0 m1" "hasher m1 = hasher m"
      "find_bucket_count (2 * ?n) = Some p" "length (table m1) = p" "2 * ?n \<le> p"
      "to_list m1 = to_list m" "prime_nat p"
    by blast
  have sz: "size_hm m1 = size_hm m" using m1(7) by (simp add: size_to_list)
  have lb: "load_below_max (size_hm m1) (length (table m1))"
    using load_below_max_grown [OF invar_size [OF assms(1)] m1(6) order_refl] m1(5) sz by simp
  have "fst x \<notin> fst ` set (to_list m1)" using assms(2) m1(7) by simp
  from insert_among_fit_correct [OF m1(2) this lb] insert_among_fit [OF m1(2) this lb]
  obtain m' where m': "emplace_and_probe used m1 x = Some m'" "inv0 m'" "hasher m' = hasher m1"
      "length (table m') = length (table m1)" "to_list m' = to_list m1 @ [x]"
    by auto
  have "find_hm m (fst x) = Some None" by (rule find_hm_invar_absent [OF assms])
  with m1(1) m'(1) have ins: "insert_among used m x = Some m'" by (simp add: insert_among_unfold)
  have "size_hm m' - 1 = size_hm m1" using m'(5) by (simp add: size_to_list)
  moreover have "START_BUCKET_COUNT \<le> length (table m')"
    using assms(1) m1(5,6) m'(4) by (simp add: invar_def)
  ultimately have "invar m'" using m' lb m1(5,8) by (simp add: invar_def)
  with ins m' m1 False show ?thesis by simp
qed

lemma insert_hm_new:
  assumes "invar m" "fst x \<notin> fst ` set (to_list m)"
  shows "\<exists>m'. insert_hm m x = Some m' \<and> invar m' \<and> hasher m' = hasher m \<and>
           to_list m' = to_list m @ [x] \<and>
           (if load_below_max (size_hm m) (length (table m))
            then length (table m') = length (table m)
            else find_bucket_count (2 * length (table m)) = Some (length (table m')))"
  unfolding insert_hm_def using assms by (rule insert_among_new)

lemma insert_among_returns:
  assumes "invar m"
  shows "\<exists>m'. insert_among used m x = Some m' \<and> invar m' \<and> hasher m' = hasher m"
  using insert_among_present [OF assms, of x used] insert_among_new [OF assms, of x used] assms
  by (cases "fst x \<in> fst ` set (to_list m)") auto

lemma insert_hm_returns:
  assumes "invar m"
  shows "\<exists>m'. insert_hm m x = Some m' \<and> invar m' \<and> hasher m' = hasher m"
  using insert_hm_present [OF assms, of x] insert_hm_new [OF assms, of x] assms
  by (cases "fst x \<in> fst ` set (to_list m)") auto

lemma prime_nat_START: "prime_nat START_BUCKET_COUNT"
proof -
  have "trial_division 37 2" by code_simp
  then show ?thesis by (simp add: START_BUCKET_COUNT_def trial_division_prime)
qed

lemma invar_init: "invar (HashMap_init hash)"
  using prime_nat_START inv0_fresh [where m = "\<lparr>hasher = hash, items = [], table = []\<rparr>" and p = START_BUCKET_COUNT]
  by (simp add: invar_def HashMap_init_def)

lemma length_filter_distinct:
  "distinct xs \<Longrightarrow> h \<in> set xs \<Longrightarrow> length (filter (\<lambda>a. a \<noteq> h) xs) = length xs - 1"
proof (induction xs)
  case Nil
  then show ?case by simp
next
  case (Cons x xs)
  show ?case
  proof (cases "x = h")
    case True
    with Cons.prems have "filter (\<lambda>a. a \<noteq> h) xs = xs" by (auto intro: filter_True)
    with True show ?thesis by simp
  next
    case False
    with Cons have "length (filter (\<lambda>a. a \<noteq> h) xs) = length xs - 1" "xs \<noteq> []" by auto
    with False show ?thesis by (cases xs) auto
  qed
qed

lemma erase_it_invar:
  assumes inv: "invar m" and it: "deref m h = Some it"
  shows "\<exists>m'. erase_it m (Some h) = Some m' \<and> invar m' \<and> hasher m' = hasher m \<and>
           length (table m') = length (table m) \<and>
           to_list m' = filter (\<lambda>kv. fst kv \<noteq> fst (data it)) (to_list m) \<and>
           map fst (items m') = filter (\<lambda>a. a \<noteq> h) (map fst (items m)) \<and>
           size_hm m' = size_hm m - 1"
proof -
  from inv have i0: "inv0 m" and st: "START_BUCKET_COUNT \<le> length (table m)"
    "prime_nat (length (table m))"
    by (simp_all add: invar_def)
  from invar_empty_slot [OF inv] obtain e where "e < length (table m)" "table m ! e = None"
    by blast
  from erase_it_correct [OF i0 it this] obtain m' where
    m': "erase_it m (Some h) = Some m'" "inv0 m'" "hasher m' = hasher m"
      "length (table m') = length (table m)"
      "to_list m' = filter (\<lambda>kv. fst kv \<noteq> fst (data it)) (to_list m)"
      "map fst (items m') = filter (\<lambda>a. a \<noteq> h) (map fst (items m))"
    by blast
  from i0 have d: "distinct (map fst (items m))" by (auto simp: inv0_def dest: wf_distinct)
  have hm: "h \<in> set (map fst (items m))"
    using deref_Some_mem [OF it] by (auto intro: rev_image_eqI)
  have "length (map fst (items m')) = length (map fst (items m)) - 1"
    unfolding m'(6) using length_filter_distinct [OF d hm] by (simp only: length_map)
  then have sz: "size_hm m' = size_hm m - 1" by (simp add: size_hm_def)
  have "items m' = [] \<or> load_below_max (size_hm m' - 1) (length (table m'))"
  proof (cases "items m' = []")
    case False
    then have "items m \<noteq> []" using hm by auto
    with inv have "load_below_max (size_hm m - 1) (length (table m))" by (simp add: invar_def)
    from load_below_max_mono [OF this, of "size_hm m' - 1"] sz m'(4) show ?thesis by simp
  qed simp
  with m' st sz show ?thesis by (simp add: invar_def)
qed

lemma erase_present:
  assumes inv: "invar m" and it: "deref m h = Some it"
  shows "erase m (fst (data it)) = erase_it m (Some h)"
  using find_hm_invar_present [OF assms] by (simp add: erase_def)

lemma erase_absent:
  assumes "invar m" "key \<notin> fst ` set (to_list m)"
  shows "erase m key = Some m"
  using find_hm_invar_absent [OF assms] by (simp add: erase_def)

lemma erase_returns:
  assumes "invar m"
  shows "\<exists>m'. erase m key = Some m' \<and> invar m' \<and> hasher m' = hasher m \<and>
           length (table m') = length (table m)"
proof (cases "key \<in> fst ` set (to_list m)")
  case True
  from assms have "wf m None" by (simp add: invar_def inv0_def)
  from key_deref [OF this True] obtain h it where it: "deref m h = Some it" "fst (data it) = key"
    by blast
  from erase_it_invar [OF assms it(1)] erase_present [OF assms it(1)] it(2)
  show ?thesis by auto
next
  case False
  with erase_absent [OF assms] assms show ?thesis by simp
qed

lemma clear_aux:
  assumes "invar m" "distinct hs" "set hs \<subseteq> set (map fst (items m))"
  shows "\<exists>m'. for_each (\<lambda>h m. erase_it m (Some h)) hs m = Some m' \<and> invar m' \<and>
           hasher m' = hasher m \<and> length (table m') = length (table m) \<and>
           map fst (items m') = filter (\<lambda>a. a \<notin> set hs) (map fst (items m))"
  using assms
proof (induction hs arbitrary: m)
  case Nil
  then show ?case by simp
next
  case (Cons h hs)
  from Cons.prems(3) have "deref m h \<noteq> None" by (simp add: deref_None_iff)
  then obtain it where it: "deref m h = Some it" by auto
  from erase_it_invar [OF Cons.prems(1) it] obtain m1 where
    m1: "erase_it m (Some h) = Some m1" "invar m1" "hasher m1 = hasher m"
      "length (table m1) = length (table m)"
      "map fst (items m1) = filter (\<lambda>a. a \<noteq> h) (map fst (items m))"
    by blast
  have "set hs \<subseteq> set (map fst (items m1))"
    unfolding m1(5) using Cons.prems(2,3) by auto
  with Cons.IH [OF m1(2)] Cons.prems(2) obtain m' where
    "for_each (\<lambda>h m. erase_it m (Some h)) hs m1 = Some m'" "invar m'"
    "hasher m' = hasher m1" "length (table m') = length (table m1)"
    "map fst (items m') = filter (\<lambda>a. a \<notin> set hs) (map fst (items m1))"
    by auto
  with m1 show ?case by (simp add: conj_commute)
qed

lemma clear_correct:
  assumes "invar m"
  shows "\<exists>m'. clear m = Some m' \<and> invar m' \<and> hasher m' = hasher m \<and>
           length (table m') = length (table m) \<and> items m' = []"
proof -
  from assms have "distinct (map fst (items m))" by (auto simp: invar_def inv0_def dest: wf_distinct)
  from clear_aux [OF assms this order_refl] show ?thesis
    by (auto simp: clear_def)
qed

lemma copy_aux:
  assumes "invar another"
  shows "\<exists>m'. for_each (\<lambda>node m. insert_among used m node) (to_list another)
                (this\<lparr>hasher := hasher another, items := [],
                   table := replicate (length (table another)) None\<rparr>) = Some m' \<and>
           invar m' \<and> hasher m' = hasher another \<and>
           length (table m') = length (table another) \<and> to_list m' = to_list another \<and>
           fst ` set (items m') \<inter> set used = {}"
proof -
  let ?n = "length (table another)"
  let ?m = "this\<lparr>hasher := hasher another, items := [], table := replicate ?n None\<rparr>"
  from assms have wf: "wf another None" and st: "START_BUCKET_COUNT \<le> ?n" "prime_nat ?n"
    by (simp_all add: invar_def inv0_def)
  have i0: "inv0 ?m"
    using inv0_fresh [where m = "this\<lparr>hasher := hasher another\<rparr>" and p = ?n] by simp
  have "load_below_max k (length (table ?m))" if "k < size_hm ?m + length (to_list another)" for k
  proof -
    from that have k: "k \<le> size_hm another - 1" and "items another \<noteq> []"
      by (auto simp: size_hm_def to_list_def)
    with assms have "load_below_max (size_hm another - 1) ?n" by (simp add: invar_def)
    from load_below_max_mono [OF this k] show ?thesis by simp
  qed
  moreover have "distinct (map fst (to_list another))" using wf by (rule wf_distinct)
  moreover have "fst ` set (to_list another) \<inter> fst ` set (to_list ?m) = {}"
    by (simp add: to_list_def)
  moreover have "fst ` set (items ?m) \<inter> set used = {}" by simp
  ultimately obtain m' where
    m': "for_each (\<lambda>x m. insert_among used m x) (to_list another) ?m = Some m'"
      "inv0 m'" "hasher m' = hasher ?m" "length (table m') = length (table ?m)"
      "to_list m' = to_list ?m @ to_list another" "fst ` set (items m') \<inter> set used = {}"
    using reinsert_correct [OF i0, of "to_list another" used] by blast
  then have tl: "to_list m' = to_list another" by (simp add: to_list_def)
  then have "size_hm m' = size_hm another" by (simp add: size_to_list)
  moreover have "items m' = [] \<longleftrightarrow> items another = []"
    using tl by (metis length_0_conv size_hm_def size_to_list)
  ultimately have "invar m'"
    using assms m'(2,4) st by (simp add: invar_def)
  with m' tl show ?thesis by simp
qed

lemma HashMap_copy_correct:
  assumes "invar another"
  shows "\<exists>m'. HashMap_copy another = Some m' \<and> invar m' \<and> hasher m' = hasher another \<and>
           length (table m') = length (table another) \<and> to_list m' = to_list another \<and>
           fst ` set (items m') \<inter> fst ` set (items another) = {}"
  using copy_aux [OF assms, of "map fst (items another)"
      "\<lparr>hasher = hasher another, items = [], table = []\<rparr>"]
  by (simp add: HashMap_copy_def)

lemma assign_correct:
  assumes "invar another"
  shows "\<exists>m'. assign this (Some another) = Some m' \<and> invar m' \<and> hasher m' = hasher another \<and>
           length (table m') = length (table another) \<and> to_list m' = to_list another \<and>
           fst ` set (items m') \<inter> fst ` set (items another) = {}"
  using copy_aux [OF assms, of "map fst (items another)" this] by (simp add: assign_def)

lemma table_write_ref [simp]: "table (write_ref m r v) = table m"
  and hasher_write_ref [simp]: "hasher (write_ref m r v) = hasher m"
  by (simp_all add: write_ref_def)

lemma wf_write_ref:
  assumes wf: "wf m None"
  shows "wf (write_ref m r v) None"
  unfolding wf_def
proof (intro conjI allI impI)
  let ?f = "data_update (\<lambda>(k, _). (k, v)) :: ('a, 'b) BucketItem \<Rightarrow> ('a, 'b) BucketItem"
  let ?m = "write_ref m r v"
  have m: "?m = upd_node r ?f m" by (simp add: write_ref_def)
  have f: "id_in_table (?f it) = id_in_table it" "distance_to_ideal (?f it) = distance_to_ideal it"
    "fst (data (?f it)) = fst (data it)" for it
    by (simp_all add: case_prod_unfold)
  have d: "deref ?m a = (if a = r then map_option ?f (deref m r) else deref m a)" for a
    unfolding m by (rule deref_upd_node)
  show "distinct (map fst (items ?m))" using wf by (simp add: m wf_distinct)
  have "map fst (to_list ?m) = map fst (to_list m)"
    by (simp add: m to_list_def upd_node_def comp_def case_prod_unfold if_distrib [of fst] if_distrib [of data] if_distrib [of snd] cong: if_cong)
  then show "distinct (map fst (to_list ?m))" using wf by (simp add: wf_distinct)
  {
    fix i a
    assume i: "i < length (table ?m)" and a: "table ?m ! i = Some a"
    then have i': "i < length (table m)" and a': "table m ! i = Some a" by simp_all
    show "Some a \<noteq> None" by simp
    from slot_wf [OF wf i' a'] obtain it where "deref m a = Some it" "id_in_table it = i"
        "(hasher m (fst (data it)) + distance_to_ideal it) mod length (table m) = i"
      by metis
    then show "\<exists>it. deref ?m a = Some it \<and> id_in_table it = i \<and>
            (hasher ?m (fst (data it)) + distance_to_ideal it) mod length (table ?m) = i"
      by (auto simp: d case_prod_unfold)
  }
  {
    fix a it
    assume "deref ?m a = Some it"
    then obtain it' where it': "deref m a = Some it'" "id_in_table it = id_in_table it'"
      by (auto simp: d case_prod_unfold split: if_splits)
    from wf_node(1,2) [OF wf it'(1)] it'(2)
    show "id_in_table it < length (table ?m)" "table ?m ! id_in_table it = Some a"
      by simp_all
  }
qed

lemma dist_at_write_ref:
  "dist_at (write_ref m r v) i = dist_at m i"
  by (auto simp: dist_at_def slot_def write_ref_def deref_upd_node option.map_comp comp_def
      split: option.splits)

lemma to_list_write_ref_length [simp]: "size_hm (write_ref m r v) = size_hm m"
  by (simp add: size_hm_def write_ref_def upd_node_def)

lemma invar_write_ref:
  assumes "invar m"
  shows "invar (write_ref m r v)"
proof -
  from assms have "wf m None" "robin_hood (length (table m)) (dist_at m)"
    by (simp_all add: invar_def inv0_def)
  then have "inv0 (write_ref m r v)"
    using wf_write_ref [of m r v]
    by (simp add: inv0_def dist_at_write_ref [abs_def])
  moreover have "items (write_ref m r v) = [] \<longleftrightarrow> items m = []"
    by (simp add: write_ref_def upd_node_def)
  ultimately show ?thesis using assms by (simp add: invar_def)
qed

lemma index_hm_eq:
  assumes "invar m"
  shows "\<exists>m' r it. index_hm dflt m key = Some (r, m') \<and> insert_hm m (key, dflt) = Some m' \<and>
           invar m' \<and> deref m' r = Some it \<and> fst (data it) = key"
proof -
  from insert_hm_returns [OF assms, of "(key, dflt)"] obtain m' where
    m': "insert_hm m (key, dflt) = Some m'" "invar m'" by blast
  have k: "key \<in> fst ` set (to_list m')"
  proof (cases "key \<in> fst ` set (to_list m)")
    case True
    with insert_hm_present [OF assms, of "(key, dflt)"] m'(1) show ?thesis by simp
  next
    case False
    with insert_hm_new [OF assms, of "(key, dflt)"] m'(1) show ?thesis by auto
  qed
  from m'(2) have "wf m' None" by (simp add: invar_def inv0_def)
  from key_deref [OF this k] obtain r it where it: "deref m' r = Some it" "fst (data it) = key"
    by blast
  from find_hm_invar_present [OF m'(2) it(1)] it(2) have "find_hm m' key = Some (Some r)" by simp
  with m' it show ?thesis by (simp add: index_hm_def)
qed

theorem reachable_invar:
  assumes "reachable m"
  shows "invar m"
  using assms
proof (induction rule: reachable.induct)
  case (r_init hash)
  show ?case by (rule invar_init)
next
  case (r_insert m x m')
  with insert_hm_returns [of m x] show ?case by auto
next
  case (r_insert_among m used x m')
  with insert_among_returns [of m used x] show ?case by auto
next
  case (r_erase m key m')
  with erase_returns [of m key] show ?case by auto
next
  case (r_erase_it m h it m')
  with erase_it_invar [of m h it] show ?case by auto
next
  case (r_index m dflt key r m')
  with index_hm_eq [of m dflt key] show ?case by auto
next
  case (r_write m r it v)
  then show ?case by (simp add: invar_write_ref)
next
  case (r_clear m m')
  with clear_correct [of m] show ?case by auto
next
  case (r_copy m m')
  with HashMap_copy_correct [of m] show ?case by auto
next
  case (r_assign m another m')
  with assign_correct [of another m] show ?case by auto
next
  case (r_assign_self m m')
  then show ?case by (simp add: assign_def)
qed

lemma load_below_max_simp:
  "n < 2147483648 \<Longrightarrow> load_below_max s n = ((s + 1) * 8388608 < 5033165 * n)"
  using load_below_max_iff [of n s] by simp

lemmas eval_simps = insert_hm_def insert_among.simps find_hm_def find_loop.simps emplace_and_probe_def
  insert_loop.simps load_below_max_simp HashMap_init_def START_BUCKET_COUNT_def size_hm_def
  new_addr_def upd_node_def deref_def HashMap_range_def Let_def

lemma example_map_range: "HashMap_range id [(0, 10), (37, 11), (2, 12)] = Some example_map"
  by (simp add: eval_simps example_map_def numeral_2_eq_2 numeral_3_eq_3)

lemma reachable_for_each:
  assumes "reachable m" "for_each (\<lambda>x m. insert_hm m x) xs m = Some m'"
  shows "reachable m'"
  using assms
proof (induction xs arbitrary: m)
  case Nil
  then show ?case by simp
next
  case (Cons x xs)
  then obtain m1 where m1: "insert_hm m x = Some m1" "for_each (\<lambda>x m. insert_hm m x) xs m1 = Some m'"
    by (auto split: Option.bind_splits)
  from Cons.prems(1) m1(1) have "reachable m1" by (rule r_insert)
  from Cons.IH [OF this m1(2)] show ?case .
qed

lemma reachable_range: "HashMap_range hash xs = Some m \<Longrightarrow> reachable m"
  unfolding HashMap_range_def by (rule reachable_for_each [OF r_init])

lemma reachable_example: "reachable example_map"
  using example_map_range by (rule reachable_range)

lemma insert_all:
  assumes "invar m" "distinct (map fst xs)" "fst ` set xs \<inter> fst ` set (to_list m) = {}"
  shows "\<exists>m'. for_each (\<lambda>x m. insert_hm m x) xs m = Some m' \<and> invar m' \<and>
           hasher m' = hasher m \<and> to_list m' = to_list m @ xs"
  using assms
proof (induction xs arbitrary: m)
  case Nil
  then show ?case by simp
next
  case (Cons x xs)
  have "fst x \<notin> fst ` set (to_list m)" using Cons.prems(3) by auto
  from insert_hm_new [OF Cons.prems(1) this] obtain m1 where
    m1: "insert_hm m x = Some m1" "invar m1" "hasher m1 = hasher m" "to_list m1 = to_list m @ [x]"
    by blast
  have "distinct (map fst xs)" using Cons.prems(2) by simp
  moreover have "fst ` set xs \<inter> fst ` set (to_list m1) = {}"
    using Cons.prems(2,3) m1(4) by auto
  ultimately obtain m' where "for_each (\<lambda>x m. insert_hm m x) xs m1 = Some m'" "invar m'"
      "hasher m' = hasher m1" "to_list m' = to_list m1 @ xs"
    using Cons.IH [OF m1(2)] by blast
  with m1 show ?case by simp
qed

lemma lookup_present:
  assumes "invar m" "(k, v) \<in> set (to_list m)"
  shows "\<exists>r it. find_hm m k = Some (Some r) \<and> deref m r = Some it \<and> data it = (k, v)"
proof -
  from assms(2) obtain a it where m: "(a, it) \<in> set (items m)" and d: "data it = (k, v)"
    by (auto simp: to_list_def)
  from assms(1) have "wf m None" by (simp add: invar_def inv0_def)
  from mem_deref [OF this m] have "deref m a = Some it" .
  with find_hm_invar_present [OF assms(1) this] d show ?thesis by auto
qed

lemma at_hm_present:
  assumes "invar m" "(k, v) \<in> set (to_list m)"
  shows "\<exists>r. find_hm m k = Some (Some r) \<and> at_hm m k = Some (Inr r) \<and> read_ref m r = Some v"
  using lookup_present [OF assms] by (auto simp: at_hm_def read_ref_def)

text \<open>
  C1. For every list of pairs with pairwise distinct keys, inserting them one after the
  other into a fresh map returns a map whose \<open>size\<close> is the number of pairs, in which
  \<open>find\<close> gives for every inserted key the node that holds its pair, and whose iteration
  yields the pairs in insertion order.  The list is arbitrary, so it may be long enough
  for any number of growth rehashes.
\<close>

theorem distinct_inserts_kept:
  assumes "distinct (map fst xs)"
  shows "\<exists>m. HashMap_range hash xs = Some m \<and> size_hm m = length xs \<and> to_list m = xs \<and>
           (\<forall>k v. (k, v) \<in> set xs \<longrightarrow>
              (\<exists>r. find_hm m k = Some (Some r) \<and> read_ref m r = Some v))"
proof -
  have "fst ` set xs \<inter> fst ` set (to_list (HashMap_init hash :: ('a, 'b) HashMap)) = {}"
    by (simp add: to_list_def HashMap_init_def)
  from insert_all [OF invar_init assms this] obtain m where
    m: "HashMap_range hash xs = Some m" "invar m" "to_list m = xs"
    by (auto simp: HashMap_range_def to_list_def HashMap_init_def)
  from at_hm_present [OF m(2)] m(3)
  have "\<exists>r. find_hm m k = Some (Some r) \<and> read_ref m r = Some v" if "(k, v) \<in> set xs" for k v
    using that by blast
  with m show ?thesis by (auto simp: size_to_list)
qed

theorem distinct_inserts_kept_witness:
  "distinct (map fst [(0::nat, 10::nat), (37, 11), (2, 12)]) \<and>
   (\<exists>m. HashMap_range id [(0::nat, 10::nat), (37, 11), (2, 12)] = Some m \<and>
      size_hm m = length [(0::nat, 10::nat), (37, 11), (2, 12)] \<and>
      to_list m = [(0, 10), (37, 11), (2, 12)] \<and>
      (\<forall>k v. (k, v) \<in> set [(0, 10), (37, 11), (2, 12)] \<longrightarrow>
         (\<exists>r. find_hm m k = Some (Some r) \<and> read_ref m r = Some v)))"
  using distinct_inserts_kept [of "[(0::nat, 10::nat), (37, 11), (2, 12)]" id] by simp

text \<open>
  C2. In a reachable map that holds key \<open>k\<close> with value \<open>v1\<close>, \<open>insert (k, v2)\<close> returns
  the map as it was: \<open>at k\<close> still refers to \<open>v1\<close>, and the size, the iteration
  sequence and the number of slots are those of before.
\<close>

theorem insert_present_noop:
  assumes "reachable m" "(k, v1) \<in> set (to_list m)"
  shows "\<exists>m'. insert_hm m (k, v2) = Some m' \<and> m' = m \<and>
           (\<exists>r. at_hm m' k = Some (Inr r) \<and> read_ref m' r = Some v1) \<and>
           size_hm m' = size_hm m \<and> to_list m' = to_list m \<and> bucket_count m' = bucket_count m"
proof -
  from assms(1) have inv: "invar m" by (rule reachable_invar)
  have "fst (k, v2) \<in> fst ` set (to_list m)" using assms(2) by force
  from insert_hm_present [OF inv this] at_hm_present [OF inv assms(2)] show ?thesis by auto
qed

theorem insert_present_noop_witness:
  "reachable example_map \<and> (37, 11) \<in> set (to_list example_map) \<and>
   (\<exists>m'. insert_hm example_map (37, 99) = Some m' \<and> m' = example_map \<and>
      (\<exists>r. at_hm m' 37 = Some (Inr r) \<and> read_ref m' r = Some 11) \<and>
      size_hm m' = size_hm example_map \<and> to_list m' = to_list example_map \<and>
      bucket_count m' = bucket_count example_map)"
proof -
  have "(37, 11) \<in> set (to_list example_map)" by (simp add: example_map_def to_list_def)
  with insert_present_noop [OF reachable_example this, of 99] reachable_example
  show ?thesis by blast
qed

text \<open>
  C3. In a reachable map that holds key \<open>k\<close>, \<open>erase k\<close> returns a map in which
  \<open>find k\<close> is \<open>end()\<close>, whose size is one less, and whose iteration sequence is the
  old one without the pair of \<open>k\<close>.  Inserting \<open>k\<close> again, with any value, appends the
  pair at the end of the iteration sequence; \<open>find k\<close> then gives its node, which lies in
  the slot that its \<open>id_in_table\<close> names, \<open>distance_to_ideal\<close> slots after the ideal slot
  of \<open>k\<close>.
\<close>

theorem erase_then_reinsert:
  assumes "reachable m" "(k, v) \<in> set (to_list m)"
  shows "\<exists>m'. erase m k = Some m' \<and> find_hm m' k = Some None \<and>
           size_hm m = size_hm m' + 1 \<and>
           to_list m' = filter (\<lambda>kv. fst kv \<noteq> k) (to_list m) \<and>
           (\<forall>v'. \<exists>m'' r it.
              insert_hm m' (k, v') = Some m'' \<and> to_list m'' = to_list m' @ [(k, v')] \<and>
              find_hm m'' k = Some (Some r) \<and> deref m'' r = Some it \<and> data it = (k, v') \<and>
              table m'' ! id_in_table it = Some r \<and>
              (hasher m'' k + distance_to_ideal it) mod length (table m'') = id_in_table it)"
proof -
  from assms(1) have inv: "invar m" by (rule reachable_invar)
  from lookup_present [OF inv assms(2)] obtain h it where
    it: "deref m h = Some it" "data it = (k, v)" by blast
  from erase_it_invar [OF inv it(1)] erase_present [OF inv it(1)] it(2) obtain m' where
    m': "erase m k = Some m'" "invar m'"
      "to_list m' = filter (\<lambda>kv. fst kv \<noteq> k) (to_list m)" "size_hm m' = size_hm m - 1"
    by auto
  have absent: "k \<notin> fst ` set (to_list m')" unfolding m'(3) by auto
  have "size_hm m \<noteq> 0" using assms(2) by (auto simp: size_to_list)
  with m'(4) have sz: "size_hm m = size_hm m' + 1" by simp
  have "\<exists>m'' r it.
          insert_hm m' (k, v') = Some m'' \<and> to_list m'' = to_list m' @ [(k, v')] \<and>
          find_hm m'' k = Some (Some r) \<and> deref m'' r = Some it \<and> data it = (k, v') \<and>
          table m'' ! id_in_table it = Some r \<and>
          (hasher m'' k + distance_to_ideal it) mod length (table m'') = id_in_table it" for v'
  proof -
    from insert_hm_new [OF m'(2), of "(k, v')"] absent obtain m'' where
      m'': "insert_hm m' (k, v') = Some m''" "invar m''" "to_list m'' = to_list m' @ [(k, v')]"
      by auto
    then have "(k, v') \<in> set (to_list m'')" by simp
    from lookup_present [OF m''(2) this] obtain r it' where
      r: "find_hm m'' k = Some (Some r)" "deref m'' r = Some it'" "data it' = (k, v')"
      by blast
    from m''(2) have "wf m'' None" by (simp add: invar_def inv0_def)
    from wf_node(2,3) [OF this r(2)] r(3)
    have "table m'' ! id_in_table it' = Some r"
      "(hasher m'' k + distance_to_ideal it') mod length (table m'') = id_in_table it'"
      by simp_all
    with m'' r show ?thesis by blast
  qed
  with m'(1,3) sz find_hm_invar_absent [OF m'(2) absent] show ?thesis by blast
qed

theorem erase_then_reinsert_witness:
  "reachable example_map \<and> (37, 11) \<in> set (to_list example_map) \<and>
   (\<exists>m'. erase example_map 37 = Some m' \<and> find_hm m' 37 = Some None \<and>
      size_hm example_map = size_hm m' + 1 \<and>
      to_list m' = filter (\<lambda>kv. fst kv \<noteq> 37) (to_list example_map) \<and>
      (\<forall>v'. \<exists>m'' r it.
         insert_hm m' (37, v') = Some m'' \<and> to_list m'' = to_list m' @ [(37, v')] \<and>
         find_hm m'' 37 = Some (Some r) \<and> deref m'' r = Some it \<and> data it = (37, v') \<and>
         table m'' ! id_in_table it = Some r \<and>
         (hasher m'' 37 + distance_to_ideal it) mod length (table m'') = id_in_table it))"
proof -
  have "(37, 11) \<in> set (to_list example_map)" by (simp add: example_map_def to_list_def)
  with erase_then_reinsert [OF reachable_example this] reachable_example
  show ?thesis by blast
qed

text \<open>
  C4. In every reachable state, every node of the list lies in the slot that its
  \<open>id_in_table\<close> names and in no other slot, and every occupied slot holds the address
  of exactly one node of the list.
\<close>

theorem reachable_bijection:
  assumes "reachable m"
  shows "bijection m"
proof -
  from assms have "invar m" by (rule reachable_invar)
  then have wf: "wf m None" by (simp add: invar_def inv0_def)
  have 1: "id_in_table it < length (table m) \<and> table m ! id_in_table it = Some h \<and>
           (\<forall>i<length (table m). table m ! i = Some h \<longrightarrow> i = id_in_table it)"
    if "(h, it) \<in> set (items m)" for h it
  proof -
    from mem_deref [OF wf that] have d: "deref m h = Some it" .
    from wf_node(1,2) [OF wf d]
    have *: "id_in_table it < length (table m)" "table m ! id_in_table it = Some h" by simp_all
    have "i = id_in_table it" if "i < length (table m)" "table m ! i = Some h" for i
      using table_inj [OF wf that(2) *(2) that(1) *(1)] .
    with * show ?thesis by blast
  qed
  have 2: "\<exists>!e. e \<in> set (items m) \<and> fst e = h"
    if "i < length (table m)" "table m ! i = Some h" for i h
  proof -
    from slot_wf [OF wf that] obtain it where "deref m h = Some it" by metis
    then have mem: "(h, it) \<in> set (items m)" by (rule deref_Some_mem)
    have uniq: "e = (h, it)" if "e \<in> set (items m)" "fst e = h" for e
    proof -
      from that have "(h, snd e) \<in> set (items m)" by (metis prod.collapse)
      from mem_deref [OF wf this] \<open>deref m h = Some it\<close> have "snd e = it" by simp
      with that(2) show ?thesis by (cases e) simp
    qed
    show ?thesis
    proof (rule ex1I [of _ "(h, it)"])
      show "(h, it) \<in> set (items m) \<and> fst (h, it) = h" using mem by simp
      fix e
      assume "e \<in> set (items m) \<and> fst e = h"
      then show "e = (h, it)" using uniq by blast
    qed
  qed
  show ?thesis
    unfolding bijection_def
  proof (intro conjI ballI allI impI)
    fix x
    assume "x \<in> set (items m)"
    with 1 [of "fst x" "snd x"]
    show "case x of (h, it) \<Rightarrow>
            id_in_table it < length (table m) \<and> table m ! id_in_table it = Some h \<and>
            (\<forall>i<length (table m). table m ! i = Some h \<longrightarrow> i = id_in_table it)"
      by (simp add: case_prod_unfold)
  next
    fix i h
    assume "i < length (table m)" "table m ! i = Some h"
    then show "\<exists>!e. e \<in> set (items m) \<and> fst e = h" by (rule 2)
  qed
qed

theorem reachable_bijection_witness: "reachable example_map \<and> bijection example_map"
  using reachable_bijection [OF reachable_example] reachable_example by simp

lemma probe_run_pos:
  "0 < fuel \<Longrightarrow>
   probe_run m i fuel =
     (case dist_at m i of
        None \<Rightarrow> []
      | Some d \<Rightarrow> d # probe_run m (Suc i mod length (table m)) (fuel - 1))"
  by (cases fuel) (simp_all split: option.split)

lemma example_map_dists:
  "dist_at example_map 0 = Some 0" "dist_at example_map (Suc 0) = Some (Suc 0)"
  "dist_at example_map (Suc (Suc 0)) = Some 0" "dist_at example_map (Suc (Suc (Suc 0))) = None"
  "length (table example_map) = 37"
  by (simp_all add: example_map_def dist_at_def slot_def deref_def numeral_2_eq_2 numeral_3_eq_3)

text \<open>
  C5 as stated fails: after the insertion of keys with the hash values 0, 37 and 2 into a
  fresh map, the slots 0, 1 and 2 hold the displacements 0, 1 and 0, so the probe sequence
  from the ideal slot of key 0 meets a displacement that decreases.
\<close>

theorem nondecreasing_probe_counterexample:
  "HashMap_range id [(0, 10), (37, 11), (2, 12)] = Some example_map \<and>
   \<not> sorted (probe_run example_map (hasher example_map 0 mod length (table example_map))
               (length (table example_map)))"
proof -
  have 3: "probe_run example_map (Suc (Suc (Suc 0))) 34 = []"
    by (subst probe_run_pos) (simp_all add: example_map_dists)
  then have 3: "probe_run example_map 3 34 = []"
    by (simp only: numeral_3_eq_3)
  have 2: "probe_run example_map (Suc (Suc 0)) 35 = [0]"
    by (subst probe_run_pos) (simp_all add: example_map_dists 3)
  have 1: "probe_run example_map (Suc 0) 36 = [Suc 0, 0]"
    by (subst probe_run_pos) (simp_all add: example_map_dists 2)
  have "probe_run example_map 0 37 = [0, Suc 0, 0]"
    by (subst probe_run_pos) (simp_all add: example_map_dists 1)
  moreover have "hasher example_map 0 = 0" by (simp add: example_map_def)
  ultimately show ?thesis
    using example_map_range by (simp add: example_map_dists)
qed

text \<open>
  C5, amended.  In every reachable state, for every slot \<open>i\<close>: when the next slot (with
  wraparound) holds a node of displacement \<open>d' > 0\<close>, slot \<open>i\<close> holds a node too, and its
  displacement \<open>d\<close> satisfies \<open>d' \<le> d + 1\<close>.  Along a probe sequence a displacement
  rises by at most one from a slot to the next, and a node that follows an empty slot has
  displacement 0.
\<close>

theorem reachable_robin_hood:
  assumes "reachable m" "i < length (table m)"
    and "dist_at m (Suc i mod length (table m)) = Some d'" "0 < d'"
  shows "\<exists>d. dist_at m i = Some d \<and> d' \<le> Suc d"
proof -
  from assms(1) have "invar m" by (rule reachable_invar)
  then have "robin_hood (length (table m)) (dist_at m)" by (simp add: invar_def inv0_def)
  with assms(2-4) show ?thesis unfolding robin_hood_def by blast
qed

theorem reachable_robin_hood_witness:
  "reachable example_map \<and> 0 < length (table example_map) \<and>
   dist_at example_map (Suc 0 mod length (table example_map)) = Some 1 \<and> (0::nat) < 1 \<and>
   (\<exists>d. dist_at example_map 0 = Some d \<and> 1 \<le> Suc d)"
proof -
  have 1: "0 < length (table example_map)" by (simp add: example_map_def)
  have 2: "dist_at example_map (Suc 0 mod length (table example_map)) = Some 1"
    using example_map_dists by simp
  from reachable_robin_hood [OF reachable_example 1 2] reachable_example 1 2
  show ?thesis by simp
qed

lemma deref_write_ref:
  "deref (write_ref m r v) a =
   (if a = r then map_option (data_update (\<lambda>(k, _). (k, v))) (deref m r) else deref m a)"
  by (simp add: write_ref_def deref_upd_node)

lemma index_hm_absent:
  assumes "invar m" "key \<notin> fst ` set (to_list m)"
  shows "\<exists>r m' it. index_hm dflt m key = Some (r, m') \<and> invar m' \<and>
           to_list m' = to_list m @ [(key, dflt)] \<and> deref m' r = Some it \<and>
           data it = (key, dflt)"
proof -
  from insert_hm_new [OF assms(1), of "(key, dflt)"] assms(2) obtain m' where
    m': "insert_hm m (key, dflt) = Some m'" "invar m'" "to_list m' = to_list m @ [(key, dflt)]"
    by auto
  then have "(key, dflt) \<in> set (to_list m')" by simp
  from lookup_present [OF m'(2) this] obtain r it where
    "find_hm m' key = Some (Some r)" "deref m' r = Some it" "data it = (key, dflt)"
    by blast
  with m' show ?thesis by (simp add: index_hm_def)
qed

lemma index_hm_present:
  assumes "invar m" "(key, v) \<in> set (to_list m)"
  shows "\<exists>r. index_hm dflt m key = Some (r, m) \<and> read_ref m r = Some v"
proof -
  have "fst (key, dflt) \<in> fst ` set (to_list m)" using assms(2) by force
  from insert_hm_present [OF assms(1) this] at_hm_present [OF assms]
  show ?thesis by (auto simp: index_hm_def)
qed

text \<open>
  C8. In a reachable map, for a key that the map does not hold: \<open>at\<close> gives the error
  \<open>out_of_range\<close> (it is a \<^verbatim>\<open>const\<close> member and returns no new state), \<open>find\<close> returns
  \<open>end()\<close>, \<open>erase\<close> returns the map as it was, and \<open>operator[]\<close> returns a reference.
  For a key that the map holds with value \<open>v\<close>, \<open>at\<close> returns a reference through which
  \<open>v\<close> is read.
\<close>

theorem absent_key_outcomes:
  assumes "reachable m"
  shows "(k \<notin> fst ` set (to_list m) \<longrightarrow>
            at_hm m k = Some (Inl out_of_range) \<and> find_hm m k = Some None \<and>
            erase m k = Some m \<and> (\<exists>r m'. index_hm dflt m k = Some (r, m'))) \<and>
         (\<forall>v. (k, v) \<in> set (to_list m) \<longrightarrow>
            (\<exists>r. at_hm m k = Some (Inr r) \<and> read_ref m r = Some v))"
proof -
  from assms have inv: "invar m" by (rule reachable_invar)
  have "at_hm m k = Some (Inl out_of_range) \<and> find_hm m k = Some None \<and>
        erase m k = Some m \<and> (\<exists>r m'. index_hm dflt m k = Some (r, m'))"
    if "k \<notin> fst ` set (to_list m)"
    using find_hm_invar_absent [OF inv that] erase_absent [OF inv that]
      index_hm_absent [OF inv that, of dflt]
    by (auto simp: at_hm_def)
  moreover have "\<exists>r. at_hm m k = Some (Inr r) \<and> read_ref m r = Some v"
    if "(k, v) \<in> set (to_list m)" for v
    using at_hm_present [OF inv that] by blast
  ultimately show ?thesis by blast
qed

theorem absent_key_outcomes_witness:
  "reachable example_map \<and> 5 \<notin> fst ` set (to_list example_map) \<and>
   (37, 11) \<in> set (to_list example_map) \<and>
   at_hm example_map 5 = Some (Inl out_of_range) \<and> find_hm example_map 5 = Some None \<and>
   erase example_map 5 = Some example_map \<and>
   (\<exists>r m'. index_hm 0 example_map 5 = Some (r, m')) \<and>
   (\<exists>r. at_hm example_map 37 = Some (Inr r) \<and> read_ref example_map r = Some 11)"
proof -
  have 1: "5 \<notin> fst ` set (to_list example_map)" by (simp add: example_map_def to_list_def)
  have 2: "(37, 11) \<in> set (to_list example_map)" by (simp add: example_map_def to_list_def)
  from absent_key_outcomes [OF reachable_example, of 5 0]
    absent_key_outcomes [OF reachable_example, of 37 0] 1 2 reachable_example
  show ?thesis by blast
qed

text \<open>
  C9. In a reachable map without key \<open>k\<close>, \<open>operator[]\<close> returns a reference and a map
  that has one entry more, the pair of \<open>k\<close> and the default value appended to the
  iteration sequence; the default value is read through the reference, and after an
  assignment of \<open>v\<close> through it, \<open>find k\<close> and \<open>at k\<close> give the node of the reference and
  \<open>v\<close> is read there, with the iteration sequence changed in that pair only.  In a map
  that holds \<open>k\<close> with value \<open>v0\<close>, \<open>operator[]\<close> returns the map as it was and a reference
  through which \<open>v0\<close> is read.
\<close>

theorem index_upsert:
  assumes "reachable m"
  shows "(k \<notin> fst ` set (to_list m) \<longrightarrow>
            (\<exists>r m'. index_hm dflt m k = Some (r, m') \<and> size_hm m' = size_hm m + 1 \<and>
               to_list m' = to_list m @ [(k, dflt)] \<and> read_ref m' r = Some dflt \<and>
               (\<forall>v. find_hm (write_ref m' r v) k = Some (Some r) \<and>
                    at_hm (write_ref m' r v) k = Some (Inr r) \<and>
                    read_ref (write_ref m' r v) r = Some v \<and>
                    to_list (write_ref m' r v) = to_list m @ [(k, v)]))) \<and>
         (\<forall>v0. (k, v0) \<in> set (to_list m) \<longrightarrow>
            (\<exists>r. index_hm dflt m k = Some (r, m) \<and> read_ref m r = Some v0))"
proof -
  from assms have inv: "invar m" by (rule reachable_invar)
  have "\<exists>r m'. index_hm dflt m k = Some (r, m') \<and> size_hm m' = size_hm m + 1 \<and>
          to_list m' = to_list m @ [(k, dflt)] \<and> read_ref m' r = Some dflt \<and>
          (\<forall>v. find_hm (write_ref m' r v) k = Some (Some r) \<and>
               at_hm (write_ref m' r v) k = Some (Inr r) \<and>
               read_ref (write_ref m' r v) r = Some v \<and>
               to_list (write_ref m' r v) = to_list m @ [(k, v)])"
    if "k \<notin> fst ` set (to_list m)"
  proof -
    from index_hm_absent [OF inv that, of dflt] obtain r m' it where
      m': "index_hm dflt m k = Some (r, m')" "invar m'" "to_list m' = to_list m @ [(k, dflt)]"
        "deref m' r = Some it" "data it = (k, dflt)"
      by blast
    have sz: "size_hm m' = size_hm m + 1" using m'(3) by (simp add: size_to_list)
    have rd: "read_ref m' r = Some dflt" using m'(4,5) by (simp add: read_ref_def)
    have w: "find_hm (write_ref m' r v) k = Some (Some r) \<and>
             at_hm (write_ref m' r v) k = Some (Inr r) \<and>
             read_ref (write_ref m' r v) r = Some v \<and>
             to_list (write_ref m' r v) = to_list m @ [(k, v)]" for v
    proof -
      let ?m = "write_ref m' r v"
      have inv': "invar ?m" using m'(2) by (rule invar_write_ref)
      have d: "deref ?m r = Some (it\<lparr>data := (k, v)\<rparr>)"
        using m'(4,5) by (simp add: deref_write_ref)
      from find_hm_invar_present [OF inv' d] have f: "find_hm ?m k = Some (Some r)" by simp
      from m'(2) have wf: "wf m' None" by (simp add: invar_def inv0_def)
      have mem: "(r, it) \<in> set (items m')" using m'(4) by (rule deref_Some_mem)
      have "to_list ?m = map (\<lambda>(a, it). if a = r then (fst (data it), v) else data it) (items m')"
        by (simp add: to_list_def write_ref_def upd_node_def comp_def case_prod_unfold if_distrib [of data]
            if_distrib [of snd] cong: if_cong)
      also have "\<dots> = map (\<lambda>(a, it). if fst (data it) = k then (k, v) else data it) (items m')"
      proof (rule map_cong [OF refl])
        fix x
        assume x: "x \<in> set (items m')"
        have "fst x = r \<longleftrightarrow> fst (data (snd x)) = k"
        proof
          assume "fst x = r"
          with x have "(r, snd x) \<in> set (items m')" by (metis prod.collapse)
          from mem_deref [OF wf this] m'(4,5) show "fst (data (snd x)) = k" by simp
        next
          assume "fst (data (snd x)) = k"
          with key_unique [OF wf_distinct(2) [OF wf] _ mem, of "fst x" "snd x"] x m'(5)
          show "fst x = r" by simp
        qed
        then show "(case x of (a, it) \<Rightarrow> if a = r then (fst (data it), v) else data it) =
                   (case x of (a, it) \<Rightarrow> if fst (data it) = k then (k, v) else data it)"
          by (simp add: case_prod_unfold)
      qed
      also have "\<dots> = map (\<lambda>kv. if fst kv = k then (k, v) else kv) (to_list m')"
        by (simp add: to_list_def comp_def case_prod_unfold)
      also have "\<dots> = to_list m @ [(k, v)]"
      proof -
        have "map (\<lambda>kv. if fst kv = k then (k, v) else kv) (to_list m) = to_list m"
          by (rule map_idI) (use that in force)
        then show ?thesis unfolding m'(3) by simp
      qed
      finally have tl: "to_list ?m = to_list m @ [(k, v)]" .
      from f d tl show ?thesis by (simp add: at_hm_def read_ref_def)
    qed
    from m'(1,3) sz rd w show ?thesis by blast
  qed
  moreover have "\<exists>r. index_hm dflt m k = Some (r, m) \<and> read_ref m r = Some v0"
    if "(k, v0) \<in> set (to_list m)" for v0
    using index_hm_present [OF inv that] .
  ultimately show ?thesis by blast
qed

theorem index_upsert_witness:
  "reachable example_map \<and> 5 \<notin> fst ` set (to_list example_map) \<and>
   (37, 11) \<in> set (to_list example_map) \<and>
   (\<exists>r m'. index_hm 0 example_map 5 = Some (r, m') \<and> size_hm m' = size_hm example_map + 1 \<and>
      to_list m' = to_list example_map @ [(5, 0)] \<and> read_ref m' r = Some 0 \<and>
      (\<forall>v. find_hm (write_ref m' r v) 5 = Some (Some r) \<and>
           at_hm (write_ref m' r v) 5 = Some (Inr r) \<and>
           read_ref (write_ref m' r v) r = Some v \<and>
           to_list (write_ref m' r v) = to_list example_map @ [(5, v)])) \<and>
   (\<exists>r. index_hm 0 example_map 37 = Some (r, example_map) \<and> read_ref example_map r = Some 11)"
proof -
  have 1: "5 \<notin> fst ` set (to_list example_map)" by (simp add: example_map_def to_list_def)
  have 2: "(37, 11) \<in> set (to_list example_map)" by (simp add: example_map_def to_list_def)
  from index_upsert [OF reachable_example, of 5 0] index_upsert [OF reachable_example, of 37 0]
    1 2 reachable_example
  show ?thesis by blast
qed

lemma write_ref_elsewhere:
  assumes "r \<notin> fst ` set (items m)"
  shows "write_ref m r v = m"
proof -
  have "map (\<lambda>(a, it). if a = r then (a, data_update (\<lambda>(k, _). (k, v)) it) else (a, it)) (items m)
        = items m"
    by (rule map_idI) (use assms in force)
  then show ?thesis by (simp add: write_ref_def upd_node_def)
qed

lemma read_write_ref:
  assumes "deref m r \<noteq> None"
  shows "read_ref (write_ref m r v) r = Some v"
  using assms by (auto simp: read_ref_def deref_write_ref case_prod_unfold)

lemma independent_copyI:
  assumes "invar m" "invar c" "to_list c = to_list m" "length (table c) = length (table m)"
    "hasher c = hasher m" "fst ` set (items c) \<inter> fst ` set (items m) = {}"
  shows "independent_copy m c"
proof -
  have "\<exists>r. find_hm c k = Some (Some r) \<and> at_hm c k = Some (Inr r) \<and> read_ref c r = Some v"
    if "(k, v) \<in> set (to_list m)" for k v
    using at_hm_present [OF assms(2), of k v] that assms(3) by simp
  moreover have "write_ref m r v = m \<and> read_ref (write_ref c r v) r = Some v"
    if "deref c r \<noteq> None" for r v
  proof -
    from that have "r \<in> fst ` set (items c)" by (simp add: deref_None_iff)
    with assms(6) have "r \<notin> fst ` set (items m)" by blast
    from write_ref_elsewhere [OF this] read_write_ref [OF that] show ?thesis by simp
  qed
  moreover have "write_ref c r v = c \<and> read_ref (write_ref m r v) r = Some v"
    if "deref m r \<noteq> None" for r v
  proof -
    from that have "r \<in> fst ` set (items m)" by (simp add: deref_None_iff)
    with assms(6) have "r \<notin> fst ` set (items c)" by blast
    from write_ref_elsewhere [OF this] read_write_ref [OF that] show ?thesis by simp
  qed
  ultimately show ?thesis
    using assms(3,4,5,6) unfolding independent_copy_def bucket_count_def by blast
qed

lemma example_copy_eq: "HashMap_copy example_map = Some example_copy"
proof -
  have n: "(4::nat) = Suc (Suc (Suc (Suc 0)))" "(5::nat) = Suc (Suc (Suc (Suc (Suc 0))))"
    "(6::nat) = Suc (Suc (Suc (Suc (Suc (Suc 0)))))"
    by simp_all
  show ?thesis
    by (simp add: eval_simps HashMap_copy_def to_list_def example_map_def example_copy_def n)
qed

text \<open>
  C10. The copy constructor, applied to a reachable map, and the copy assignment of a
  reachable map to any other object return a map \<open>c\<close> that is an independent copy of the
  source \<open>m\<close>: it has the iteration sequence, the number of slots and the hash function of
  \<open>m\<close>; \<open>find\<close> and \<open>at\<close> on \<open>c\<close> give for every pair of \<open>m\<close> a node of \<open>c\<close> that holds the
  value; no node of \<open>c\<close> is a node of \<open>m\<close>; an assignment through a reference into \<open>c\<close>
  changes the value in \<open>c\<close> and leaves \<open>m\<close> as it was, and an assignment through a
  reference into \<open>m\<close> changes the value in \<open>m\<close> and leaves \<open>c\<close> as it was.  The assignment of
  an object to itself returns it as it was.
\<close>

theorem copy_independent:
  assumes "reachable m"
  shows "(\<exists>c. HashMap_copy m = Some c \<and> independent_copy m c) \<and>
         (\<exists>c. assign this (Some m) = Some c \<and> independent_copy m c) \<and>
         assign m None = Some m"
proof -
  from assms have inv: "invar m" by (rule reachable_invar)
  from HashMap_copy_correct [OF inv] obtain c where
    "HashMap_copy m = Some c" "independent_copy m c"
    by (blast intro: independent_copyI [OF inv])
  moreover from assign_correct [OF inv, of this] obtain c' where
    "assign this (Some m) = Some c'" "independent_copy m c'"
    by (blast intro: independent_copyI [OF inv])
  moreover have "assign m None = Some m" by (simp add: assign_def)
  ultimately show ?thesis by blast
qed

theorem copy_independent_witness:
  "reachable example_map \<and>
   HashMap_copy example_map = Some example_copy \<and> independent_copy example_map example_copy \<and>
   (\<exists>c. assign (HashMap_init id) (Some example_map) = Some c \<and> independent_copy example_map c) \<and>
   assign example_map None = Some example_map"
  using copy_independent [OF reachable_example, of "HashMap_init id"] reachable_example
    example_copy_eq by simp

lemma no_divisor_numeral:
  "no_divisor c d (numeral k) =
     (c mod d \<noteq> 0 \<and> c mod (d + 2) \<noteq> 0 \<and> no_divisor c (d + 6) (pred_numeral k))"
  by (simp add: numeral_eq_Suc)

lemma all_composite_D:
  assumes "all_composite c ds" "c \<le> q" "q < c + length ds"
  shows "\<not> trial_division q 2"
  using assms
proof (induction ds arbitrary: c)
  case Nil
  then show ?case by simp
next
  case (Cons d ds)
  show ?case
  proof (cases "q = c")
    case True
    from Cons.prems(1) have d: "2 \<le> d \<and> d * d \<le> c" "c mod d = 0" by simp_all
    show ?thesis
    proof
      assume "trial_division q 2"
      from iffD1 [OF trial_division_iff this, THEN spec, of d]
      have "2 \<le> d \<and> d * d \<le> q \<longrightarrow> q mod d \<noteq> 0" .
      with d True show False by simp
    qed
  next
    case False
    with Cons.prems have "all_composite (c + 1) ds" "c + 1 \<le> q" "q < c + 1 + length ds"
      by simp_all
    then show ?thesis by (rule Cons.IH)
  qed
qed

lemma no_divisor_D:
  assumes "no_divisor c d k" "j < k"
  shows "c mod (d + 6 * j) \<noteq> 0 \<and> c mod (d + 6 * j + 2) \<noteq> 0"
  using assms
proof (induction k arbitrary: d j)
  case 0
  then show ?case by simp
next
  case (Suc k)
  show ?case
  proof (cases j)
    case 0
    with Suc.prems(1) show ?thesis by simp
  next
    case (Suc i)
    with Suc.prems have "no_divisor c (d + 6) k" "i < k" by simp_all
    from Suc.IH [OF this] Suc show ?thesis by (simp add: algebra_simps)
  qed
qed

lemma wheel_prime:
  assumes 2: "c mod 2 \<noteq> 0" and 3: "c mod 3 \<noteq> 0" and nd: "no_divisor c 5 k"
    and bound: "c < (6 * k + 5) * (6 * k + 5)"
  shows "trial_division c 2"
proof (subst trial_division_iff, intro allI impI)
  fix d
  assume d: "2 \<le> d \<and> d * d \<le> c"
  have lt: "d < 6 * k + 5"
  proof (rule ccontr)
    assume "\<not> d < 6 * k + 5"
    then have "(6 * k + 5) * (6 * k + 5) \<le> d * d" by (intro mult_le_mono) simp_all
    with d bound show False by simp
  qed
  show "c mod d \<noteq> 0"
  proof
    assume z: "c mod d = 0"
    then have dvd: "d dvd c" by (simp add: dvd_eq_mod_eq_0)
    have r: "d mod 6 < 6" by simp
    then consider "d mod 6 = 0" | "d mod 6 = 1" | "d mod 6 = 2" | "d mod 6 = 3" | "d mod 6 = 4"
      | "d mod 6 = 5" by linarith
    then show False
    proof cases
      case 1
      then have "2 dvd d" by presburger
      from this dvd have "2 dvd c" by (rule dvd_trans)
      with 2 show False by presburger
    next
      case 2
      with d have "\<exists>j. d = 6 * j + 7" by presburger
      then obtain j where j: "d = 6 * j + 7" ..
      with lt have "j < k" by simp
      from no_divisor_D [OF nd this] j z show False by (simp add: add.commute)
    next
      case 3
      then have "2 dvd d" by presburger
      from this dvd have "2 dvd c" by (rule dvd_trans)
      with 2 show False by presburger
    next
      case 4
      then have "3 dvd d" by presburger
      from this dvd have "3 dvd c" by (rule dvd_trans)
      with 3 show False by presburger
    next
      case 5
      then have "2 dvd d" by presburger
      from this dvd have "2 dvd c" by (rule dvd_trans)
      with 2 show False by presburger
    next
      case 6
      then have "\<exists>j. d = 6 * j + 5" by presburger
      then obtain j where j: "d = 6 * j + 5" ..
      with lt have "j < k" by simp
      from no_divisor_D [OF nd this] j z show False by (simp add: add.commute)
    qed
  qed
qed

lemma next_bucket_count:
  assumes "all_composite c ds" "p = c + length ds"
    and "p mod 2 \<noteq> 0" "p mod 3 \<noteq> 0" "no_divisor p 5 k" "p < (6 * k + 5) * (6 * k + 5)"
  shows "find_bucket_count c = Some p"
proof (rule find_bucket_count_least)
  show "trial_division p 2" using assms(3-6) by (rule wheel_prime)
  show "c \<le> p" using assms(2) by simp
  show "\<not> trial_division q 2" if "c \<le> q" "q < p" for q
    using all_composite_D [OF assms(1) that(1)] that(2) assms(2) by simp
qed

lemma for_each_append:
  "for_each f (xs @ ys) s = Option.bind (for_each f xs s) (for_each f ys)"
  by (induction xs arbitrary: s) (auto split: Option.bind_split)

lemma range_bucket_count:
  assumes "distinct (map fst xs)"
  shows "\<exists>m. HashMap_range hash xs = Some m \<and> invar m \<and> to_list m = xs \<and>
           bucket_count m = bucket_count_after (length xs)"
  using assms
proof (induction xs rule: rev_induct)
  case Nil
  show ?case
    using invar_init [of hash]
    by (simp add: HashMap_range_def bucket_count_def HashMap_init_def to_list_def)
next
  case (snoc x xs)
  then obtain m where m: "HashMap_range hash xs = Some m" "invar m" "to_list m = xs"
      "bucket_count m = bucket_count_after (length xs)"
    by auto
  have "fst x \<notin> fst ` set (to_list m)" using snoc.prems m(3) by auto
  from insert_hm_new [OF m(2) this] obtain m' where
    m': "insert_hm m x = Some m'" "invar m'" "to_list m' = to_list m @ [x]"
      "if load_below_max (size_hm m) (length (table m))
       then length (table m') = length (table m)
       else find_bucket_count (2 * length (table m)) = Some (length (table m'))"
    by blast
  have "size_hm m = length xs" using m(3) by (simp add: size_to_list)
  with m'(4) m(4) have "bucket_count m' = bucket_count_after (Suc (length xs))"
    by (auto simp: bucket_count_def split: if_splits)
  moreover have "HashMap_range hash (xs @ [x]) = Some m'"
    using m(1) m'(1) by (simp add: HashMap_range_def for_each_append)
  ultimately show ?case using m' m(3) by simp
qed

lemma keys_upto_props: "distinct (map fst (keys_upto n))" "length (keys_upto n) = n"
  "fst ` set (keys_upto n) = {..<n}"
  by (simp_all add: keys_upto_def comp_def atLeast0LessThan image_image)

lemma keys_upto_range:
  "\<exists>m. HashMap_range hash (keys_upto n) = Some m \<and> invar m \<and> to_list m = keys_upto n \<and>
     size_hm m = n \<and> bucket_count m = bucket_count_after n"
  using range_bucket_count [OF keys_upto_props(1), of hash n]
  by (auto simp: keys_upto_props size_to_list)

lemma bucket_count_after_stay:
  assumes "bucket_count_after k = t" "k \<le> k'" "k' = k \<or> load_below_max (k' - 1) t"
  shows "bucket_count_after k' = t"
  using assms(2,3)
proof (induction k')
  case 0
  with assms(1) show ?case by simp
next
  case (Suc k')
  show ?case
  proof (cases "Suc k' = k")
    case True
    with assms(1) show ?thesis by simp
  next
    case False
    with Suc.prems have le: "k \<le> k'" and lb: "load_below_max k' t" by auto
    have "k' = k \<or> load_below_max (k' - 1) t"
      using load_below_max_mono [OF lb, of "k' - 1"] by simp
    from Suc.IH [OF le this] lb show ?thesis by simp
  qed
qed

lemma bucket_count_after_step:
  assumes "bucket_count_after k0 = t" "k0 \<le> k" "k = k0 \<or> load_below_max (k - 1) t"
    and "\<not> load_below_max k t" "find_bucket_count (2 * t) = Some t'"
  shows "bucket_count_after (Suc k) = t'"
  using bucket_count_after_stay [OF assms(1-3)] assms(4,5) by simp

lemma bucket_count_after_0: "bucket_count_after 0 = 37"
  by (simp add: START_BUCKET_COUNT_def)

lemma next_size_0: "find_bucket_count 74 = Some 79"
  by (rule next_bucket_count [where k = 1 and ds = "[2, 3, 2, 7, 2]"])
    (simp_all add: no_divisor_numeral)

lemma bucket_count_after_23: "bucket_count_after 23 = 79"
  using bucket_count_after_step [OF bucket_count_after_0, of 22 79] next_size_0
  by (simp add: load_below_max_simp)

lemma next_size_1: "find_bucket_count 158 = Some 163"
  by (rule next_bucket_count [where k = 2 and ds = "[2, 3, 2, 7, 2]"])
    (simp_all add: no_divisor_numeral)

lemma bucket_count_after_48: "bucket_count_after 48 = 163"
  using bucket_count_after_step [OF bucket_count_after_23, of 47 163] next_size_1
  by (simp add: load_below_max_simp)

lemma next_size_2: "find_bucket_count 326 = Some 331"
  by (rule next_bucket_count [where k = 3 and ds = "[2, 3, 2, 7, 2]"])
    (simp_all add: no_divisor_numeral)

lemma bucket_count_after_98: "bucket_count_after 98 = 331"
  using bucket_count_after_step [OF bucket_count_after_48, of 97 331] next_size_2
  by (simp add: load_below_max_simp)

lemma next_size_3: "find_bucket_count 662 = Some 673"
  by (rule next_bucket_count [where k = 4 and ds = "[2, 3, 2, 5, 2, 23, 2, 3, 2, 11, 2]"])
    (simp_all add: no_divisor_numeral)

lemma bucket_count_after_199: "bucket_count_after 199 = 673"
  using bucket_count_after_step [OF bucket_count_after_98, of 198 673] next_size_3
  by (simp add: load_below_max_simp)

lemma next_size_4: "find_bucket_count 1346 = Some 1361"
  by (rule next_bucket_count [where k = 6 and ds = "[2, 3, 2, 19, 2, 7, 2, 3, 2, 5, 2, 23, 2, 3, 2]"])
    (simp_all add: no_divisor_numeral)

lemma bucket_count_after_404: "bucket_count_after 404 = 1361"
  using bucket_count_after_step [OF bucket_count_after_199, of 403 1361] next_size_4
  by (simp add: load_below_max_simp)

lemma next_size_5: "find_bucket_count 2722 = Some 2729"
  by (rule next_bucket_count [where k = 8 and ds = "[2, 7, 2, 5, 2, 3, 2]"])
    (simp_all add: no_divisor_numeral)

lemma bucket_count_after_817: "bucket_count_after 817 = 2729"
  using bucket_count_after_step [OF bucket_count_after_404, of 816 2729] next_size_5
  by (simp add: load_below_max_simp)

lemma next_size_6: "find_bucket_count 5458 = Some 5471"
  by (rule next_bucket_count [where k = 12 and ds = "[2, 53, 2, 43, 2, 3, 2, 5, 2, 7, 2, 3, 2]"])
    (simp_all add: no_divisor_numeral)

lemma bucket_count_after_1638: "bucket_count_after 1638 = 5471"
  using bucket_count_after_step [OF bucket_count_after_817, of 1637 5471] next_size_6
  by (simp add: load_below_max_simp)

lemma next_size_7: "find_bucket_count 10942 = Some 10949"
  by (rule next_bucket_count [where k = 17 and ds = "[2, 31, 2, 5, 2, 3, 2]"])
    (simp_all add: no_divisor_numeral)

lemma bucket_count_after_3283: "bucket_count_after 3283 = 10949"
  using bucket_count_after_step [OF bucket_count_after_1638, of 3282 10949] next_size_7
  by (simp add: load_below_max_simp)

lemma next_size_8: "find_bucket_count 21898 = Some 21911"
  by (rule next_bucket_count [where k = 24 and ds = "[2, 61, 2, 11, 2, 3, 2, 5, 2, 19, 2, 3, 2]"])
    (simp_all add: no_divisor_numeral)

lemma bucket_count_after_6570: "bucket_count_after 6570 = 21911"
  using bucket_count_after_step [OF bucket_count_after_3283, of 6569 21911] next_size_8
  by (simp add: load_below_max_simp)

lemma next_size_9: "find_bucket_count 43822 = Some 43853"
  by (rule next_bucket_count [where k = 35 and ds = "[2, 13, 2, 5, 2, 3, 2, 41, 2, 53, 2, 3, 2, 5, 2, 59, 2, 3, 2, 7, 2, 17, 2, 3, 2, 163, 2, 13, 2, 3, 2]"])
    (simp_all add: no_divisor_numeral)

lemma bucket_count_after_13147: "bucket_count_after 13147 = 43853"
  using bucket_count_after_step [OF bucket_count_after_6570, of 13146 43853] next_size_9
  by (simp add: load_below_max_simp)

lemma next_size_10: "find_bucket_count 87706 = Some 87719"
  by (rule next_bucket_count [where k = 49 and ds = "[2, 229, 2, 139, 2, 3, 2, 239, 2, 5, 2, 3, 2]"])
    (simp_all add: no_divisor_numeral)

lemma bucket_count_after_26312: "bucket_count_after 26312 = 87719"
  using bucket_count_after_step [OF bucket_count_after_13147, of 26311 87719] next_size_10
  by (simp add: load_below_max_simp)

lemma next_size_11: "find_bucket_count 175438 = Some 175447"
  by (rule next_bucket_count [where k = 69 and ds = "[2, 11, 2, 7, 2, 3, 2, 5, 2]"])
    (simp_all add: no_divisor_numeral)

lemma bucket_count_after_52632: "bucket_count_after 52632 = 175447"
  using bucket_count_after_step [OF bucket_count_after_26312, of 52631 175447] next_size_11
  by (simp add: load_below_max_simp)

lemma next_size_12: "find_bucket_count 350894 = Some 350899"
  by (rule next_bucket_count [where k = 98 and ds = "[2, 3, 2, 17, 2]"])
    (simp_all add: no_divisor_numeral)

lemma bucket_count_after_105269: "bucket_count_after 105269 = 350899"
  using bucket_count_after_step [OF bucket_count_after_52632, of 105268 350899] next_size_12
  by (simp add: load_below_max_simp)

lemma next_size_13: "find_bucket_count 701798 = Some 701819"
  by (rule next_bucket_count [where k = 139 and ds = "[2, 3, 2, 547, 2, 19, 2, 3, 2, 421, 2, 31, 2, 3, 2, 7, 2, 5, 2, 3, 2]"])
    (simp_all add: no_divisor_numeral)

lemma bucket_count_after_210540: "bucket_count_after 210540 = 701819"
  using bucket_count_after_step [OF bucket_count_after_105269, of 210539 701819] next_size_13
  by (simp add: load_below_max_simp)

lemma next_size_14: "find_bucket_count 1403638 = Some 1403641"
  by (rule next_bucket_count [where k = 197 and ds = "[2, 17, 2]"])
    (simp_all add: no_divisor_numeral)

lemma bucket_count_after_421092: "bucket_count_after 421092 = 1403641"
  using bucket_count_after_step [OF bucket_count_after_210540, of 421091 1403641] next_size_14
  by (simp add: load_below_max_simp)

lemma next_size_15: "find_bucket_count 2807282 = Some 2807303"
  by (rule next_bucket_count [where k = 279 and ds = "[2, 3, 2, 5, 2, 7, 2, 3, 2, 443, 2, 199, 2, 3, 2, 313, 2, 11, 2, 3, 2]"])
    (simp_all add: no_divisor_numeral)

lemma bucket_count_after_842185: "bucket_count_after 842185 = 2807303"
  using bucket_count_after_step [OF bucket_count_after_421092, of 842184 2807303] next_size_15
  by (simp add: load_below_max_simp)

lemma next_size_16: "find_bucket_count 5614606 = Some 5614657"
  by (rule next_bucket_count [where k = 395 and ds = "[2, 17, 2, 7, 2, 3, 2, 881, 2, 5, 2, 3, 2, 251, 2, 727, 2, 3, 2, 5, 2, 31, 2, 3, 2, 11, 2, 19, 2, 3, 2, 7, 2, 37, 2, 3, 2, 571, 2, 5, 2, 3, 2, 73, 2, 7, 2, 3, 2, 5, 2]"])
    (simp_all add: no_divisor_numeral)

lemma bucket_count_after_1684382: "bucket_count_after 1684382 = 5614657"
  using bucket_count_after_step [OF bucket_count_after_842185, of 1684381 5614657] next_size_16
  by (simp add: load_below_max_simp)

lemma next_size_17: "find_bucket_count 11229314 = Some 11229331"
  by (rule next_bucket_count [where k = 558 and ds = "[2, 3, 2, 11, 2, 83, 2, 3, 2, 7, 2, 5, 2, 3, 2, 107, 2]"])
    (simp_all add: no_divisor_numeral)

lemma bucket_count_after_3368795: "bucket_count_after 3368795 = 11229331"
  using bucket_count_after_step [OF bucket_count_after_1684382, of 3368794 11229331] next_size_17
  by (simp add: load_below_max_simp)

lemma next_size_18: "find_bucket_count 22458662 = Some 22458671"
  by (rule next_bucket_count [where k = 790 and ds = "[2, 3, 2, 5, 2, 7, 2, 3, 2]"])
    (simp_all add: no_divisor_numeral)

lemma bucket_count_after_6737599: "bucket_count_after 6737599 = 22458671"
  using bucket_count_after_step [OF bucket_count_after_3368795, of 6737598 22458671] next_size_18
  by (simp add: load_below_max_simp)

lemma insert_hm_new_detail:
  assumes "invar m" "fst x \<notin> fst ` set (to_list m)"
  shows "\<exists>m1 m'. rehash_if_needed [] m = Some m1 \<and> emplace_and_probe [] m1 x = Some m' \<and>
           insert_hm m x = Some m' \<and> invar m' \<and> to_list m1 = to_list m \<and>
           to_list m' = to_list m @ [x] \<and> bucket_count m' = bucket_count m1 \<and>
           (if load_below_max (size_hm m) (bucket_count m) then m1 = m
            else prime_nat (bucket_count m1) \<and> 2 * bucket_count m \<le> bucket_count m1 \<and>
                 (\<forall>q. 2 * bucket_count m \<le> q \<and> q < bucket_count m1 \<longrightarrow> \<not> prime_nat q) \<and>
                 rehash_if_needed [] m =
                   for_each (\<lambda>x m'. insert_among (map fst (items m)) m' x) (to_list m)
                     (m\<lparr>items := [], table := replicate (bucket_count m1) None\<rparr>))"
proof -
  from insert_hm_new [OF assms] obtain m' where
    new: "insert_hm m x = Some m'" "invar m'" "to_list m' = to_list m @ [x]"
    by blast
  have absent: "find_hm m (fst x) = Some None" by (rule find_hm_invar_absent [OF assms])
  show ?thesis
  proof (cases "load_below_max (size_hm m) (length (table m))")
    case True
    from assms(1) have inv: "inv0 m" by (simp add: invar_def)
    from insert_among_fit_correct [OF inv assms(2) True, of "[]"]
      insert_among_fit [OF inv assms(2) True, of "[]"] new(1)
    have "emplace_and_probe [] m x = Some m'" "length (table m') = length (table m)"
      by (auto simp: insert_hm_def)
    with True new show ?thesis by (simp add: rehash_if_needed_eq bucket_count_def)
  next
    case False
    let ?n = "length (table m)"
    from rehash_correct [OF assms(1) False, of "[]"] obtain m1 p where
      m1: "rehash_if_needed [] m = Some m1" "inv0 m1" "hasher m1 = hasher m"
        "find_bucket_count (2 * ?n) = Some p" "length (table m1) = p" "2 * ?n \<le> p"
        "to_list m1 = to_list m"
      by blast
    from assms(1) have "2 \<le> 2 * ?n" by (simp add: invar_def START_BUCKET_COUNT_def)
    from find_bucket_count_correct [OF this] m1(4)
    have p: "prime_nat p" "\<forall>q. 2 * ?n \<le> q \<and> q < p \<longrightarrow> \<not> prime_nat q" by auto
    have sz: "size_hm m1 = size_hm m" using m1(7) by (simp add: size_to_list)
    have lb: "load_below_max (size_hm m1) (length (table m1))"
      using load_below_max_grown [OF invar_size [OF assms(1)] m1(6) order_refl] m1(5) sz by simp
    have "fst x \<notin> fst ` set (to_list m1)" using assms(2) m1(7) by simp
    from insert_among_fit_correct [OF m1(2) this lb, of "[]"]
      insert_among_fit [OF m1(2) this lb, of "[]"]
    obtain m2 where m2: "emplace_and_probe [] m1 x = Some m2"
        "length (table m2) = length (table m1)"
      by auto
    from absent m1(1) m2(1) have "insert_hm m x = Some m2" by (simp add: insert_hm_unfold)
    with new(1) have eq: "m2 = m'" by simp
    have "rehash_if_needed [] m =
            for_each (\<lambda>x m'. insert_among (map fst (items m)) m' x) (to_list m)
              (m\<lparr>items := [], table := replicate p None\<rparr>)"
      using False m1(4) by (simp add: rehash_if_needed_eq mult.commute)
    with m1 m2 eq new p False show ?thesis by (simp add: bucket_count_def)
  qed
qed

lemma load_below_max_ratio:
  assumes "load_below_max s n" "n < 2 ^ 53"
  shows "(of_nat (s + 1) :: rat) / of_nat n < MAX_LOAD_FACTOR"
proof -
  from load_below_max_space [OF assms(1)] assms(2) have "s + 1 < 2 ^ 53" by simp
  with assms have lt: "to_double ((of_nat (s + 1) :: rat) / of_nat n) < MAX_LOAD_FACTOR"
    by (simp add: load_below_max_def to_double_of_nat del: of_nat_add of_nat_Suc)
  show ?thesis
  proof (rule ccontr)
    assume "\<not> ?thesis"
    then have "MAX_LOAD_FACTOR \<le> (of_nat (s + 1) :: rat) / of_nat n" by simp
    from to_double_mono [OF this] lt show False by (simp add: to_double_MAX)
  qed
qed

lemma prime_nat_not_5:
  assumes "prime_nat n" "START_BUCKET_COUNT \<le> n"
  shows "\<not> 5 dvd n"
proof
  assume "5 dvd n"
  with assms(1) have "5 = n" unfolding prime_nat_def by auto
  with assms(2) show False by (simp add: START_BUCKET_COUNT_def)
qed

lemma big_map_props:
  "HashMap_range id (keys_upto 13475202) = Some big_map" "invar big_map"
  "to_list big_map = keys_upto 13475202" "size_hm big_map = 13475202"
  "bucket_count big_map = 22458671"
proof -
  have "bucket_count_after 13475202 = 22458671"
    by (rule bucket_count_after_stay [OF bucket_count_after_6737599])
      (simp_all add: load_below_max_simp)
  with keys_upto_range [of id 13475202]
  show "HashMap_range id (keys_upto 13475202) = Some big_map" "invar big_map"
    "to_list big_map = keys_upto 13475202" "size_hm big_map = 13475202"
    "bucket_count big_map = 22458671"
    by (auto simp: big_map_def)
qed

lemma full_map_props:
  "HashMap_range id (keys_upto 22) = Some full_map" "invar full_map"
  "to_list full_map = keys_upto 22" "size_hm full_map = 22"
  "bucket_count full_map = 37"
proof -
  have "bucket_count_after 22 = 37"
    by (rule bucket_count_after_stay [OF bucket_count_after_0])
      (simp_all add: load_below_max_simp)
  with keys_upto_range [of id 22]
  show "HashMap_range id (keys_upto 22) = Some full_map" "invar full_map"
    "to_list full_map = keys_upto 22" "size_hm full_map = 22"
    "bucket_count full_map = 37"
    by (auto simp: full_map_def)
qed

lemma MAX_LOAD_FACTOR_pos: "0 < MAX_LOAD_FACTOR"
  by (simp add: MAX_LOAD_FACTOR_eq)

lemma ratio_below_MAX:
  assumes "0 < n"
  shows "(of_nat k :: rat) / of_nat n < MAX_LOAD_FACTOR \<longleftrightarrow> k * 8388608 < 5033165 * n"
proof -
  have "(of_nat k :: rat) / of_nat n < 5033165 / 8388608 \<longleftrightarrow>
        (of_nat k :: rat) * 8388608 < 5033165 * of_nat n"
    using assms by (simp add: field_simps)
  also have "\<dots> \<longleftrightarrow> (of_nat (k * 8388608) :: rat) < of_nat (5033165 * n)"
    by simp
  also have "\<dots> \<longleftrightarrow> k * 8388608 < 5033165 * n"
    by (rule of_nat_less_iff)
  finally show ?thesis by (simp add: MAX_LOAD_FACTOR_eq)
qed

lemma ratio_below_three_fifths:
  assumes "0 < n"
  shows "(of_nat k :: rat) / of_nat n < 3 / 5 \<longleftrightarrow> 5 * k < 3 * n"
proof -
  have "(of_nat k :: rat) / of_nat n < 3 / 5 \<longleftrightarrow> (of_nat k :: rat) * 5 < 3 * of_nat n"
    using assms by (simp add: field_simps)
  also have "\<dots> \<longleftrightarrow> (of_nat (5 * k) :: rat) < of_nat (3 * n)"
    by (simp add: mult.commute)
  also have "\<dots> \<longleftrightarrow> 5 * k < 3 * n"
    by (rule of_nat_less_iff)
  finally show ?thesis .
qed

lemma small_table_threshold:
  assumes "prime_nat n" "START_BUCKET_COUNT \<le> n" "n \<le> 8388608"
  shows "k * 8388608 < 5033165 * n \<longleftrightarrow> 5 * k < 3 * n"
proof
  assume "5 * k < 3 * n"
  then show "k * 8388608 < 5033165 * n" by simp
next
  assume lt: "k * 8388608 < 5033165 * n"
  show "5 * k < 3 * n"
  proof (rule ccontr)
    assume "\<not> 5 * k < 3 * n"
    then have ge: "3 * n \<le> 5 * k" by simp
    have "5 * k \<noteq> 3 * n"
    proof
      assume "5 * k = 3 * n"
      then have "5 dvd n" by presburger
      with prime_nat_not_5 [OF assms(1,2)] show False by simp
    qed
    with ge have "3 * n + 1 \<le> 5 * k" by simp
    with lt assms(3) show False by simp
  qed
qed

lemma invar_load_factor:
  assumes "invar m" "bucket_count m < 2 ^ 53"
  shows "load_factor m < MAX_LOAD_FACTOR"
proof (cases "items m = []")
  case True
  then show ?thesis by (simp add: load_factor_def size_hm_def MAX_LOAD_FACTOR_pos)
next
  case False
  with assms(1) have "load_below_max (size_hm m - 1) (length (table m))"
    by (simp add: invar_def)
  from load_below_max_ratio [OF this] assms(2)
  have "(of_nat (size_hm m - 1 + 1) :: rat) / of_nat (bucket_count m) < MAX_LOAD_FACTOR"
    by (simp add: bucket_count_def)
  moreover have "size_hm m - 1 + 1 = size_hm m" using False by (simp add: size_hm_def)
  ultimately show ?thesis by (simp add: load_factor_def)
qed

lemma invar_load_factor_small:
  assumes "invar m" "bucket_count m \<le> 8388608"
  shows "load_factor m < 3 / 5"
proof -
  let ?n = "bucket_count m"
  from assms(1) have n: "prime_nat ?n" "START_BUCKET_COUNT \<le> ?n"
    by (simp_all add: invar_def bucket_count_def)
  then have pos: "0 < ?n" by (simp add: START_BUCKET_COUNT_def)
  from assms(2) have "?n < 2 ^ 53" by simp
  from invar_load_factor [OF assms(1) this]
  have "size_hm m * 8388608 < 5033165 * ?n"
    by (simp add: load_factor_def ratio_below_MAX [OF pos])
  with small_table_threshold [OF n assms(2), of "size_hm m"]
  have "5 * size_hm m < 3 * ?n" by simp
  then show ?thesis unfolding load_factor_def ratio_below_three_fifths [OF pos] .
qed

lemma reachable_big_map: "reachable big_map"
  using big_map_props(1) by (rule reachable_range)

lemma reachable_full_map: "reachable full_map"
  using full_map_props(1) by (rule reachable_range)

lemma big_map_fits: "load_below_max (size_hm big_map) (bucket_count big_map)"
  by (simp add: big_map_props load_below_max_simp)

lemma big_map_new_key: "fst (13475202, ()) \<notin> fst ` set (to_list big_map)"
  by (simp add: big_map_props keys_upto_props)

lemma big_map_next_props:
  "insert_hm big_map (13475202, ()) = Some big_map_next"
  "rehash_if_needed [] big_map = Some big_map"
  "size_hm big_map_next = 13475203" "bucket_count big_map_next = 22458671"
proof -
  from insert_hm_new_detail [OF big_map_props(2) big_map_new_key] big_map_fits
  obtain m' where m': "rehash_if_needed [] big_map = Some big_map"
      "insert_hm big_map (13475202, ()) = Some m'"
      "to_list m' = to_list big_map @ [(13475202, ())]" "bucket_count m' = bucket_count big_map"
    by auto
  from m'(2) have eq: "big_map_next = m'" by (simp add: big_map_next_def)
  from m'(3) have "size_hm m' = size_hm big_map + 1" by (simp add: size_to_list)
  with m' eq show "insert_hm big_map (13475202, ()) = Some big_map_next"
    "rehash_if_needed [] big_map = Some big_map"
    "size_hm big_map_next = 13475203" "bucket_count big_map_next = 22458671"
    by (simp_all add: big_map_props)
qed

text \<open>
  C7 as stated fails.  The constant \<^verbatim>\<open>MAX_LOAD_FACTOR\<close> is a \<^verbatim>\<open>float\<close>, and the \<^verbatim>\<open>float\<close>
  nearest to \<open>0.6\<close> is \<open>5033165 / 8388608\<close>, which is above \<open>3 / 5\<close>.  A fresh map that has
  received the keys \<open>0\<close>, \<dots>, \<open>13475201\<close> has \<open>22458671\<close> slots; the insertion of the
  key \<open>13475202\<close> passes the test without a rehash, and the load factor after it,
  \<open>13475203 / 22458671\<close>, is not below \<open>3 / 5\<close>.
\<close>

theorem load_factor_counterexample:
  "HashMap_range id (keys_upto 13475202) = Some big_map \<and>
   insert_hm big_map (13475202, ()) = Some big_map_next \<and>
   size_hm big_map_next = 13475203 \<and> bucket_count big_map_next = 22458671 \<and>
   \<not> load_factor big_map_next < 3 / 5"
  by (simp add: big_map_props(1) big_map_next_props load_factor_def)

text \<open>
  C7, amended.  In every reachable state \<open>m\<close>, \<open>insert\<close> returns, and in the map \<open>m'\<close> that
  it returns the number of entries is below the number of slots; if \<open>m'\<close> has fewer than
  \<open>2^53\<close> slots, its load factor is below \<^verbatim>\<open>MAX_LOAD_FACTOR\<close>, the \<^verbatim>\<open>float\<close>
  \<open>5033165 / 8388608\<close>; if \<open>m'\<close> has at most \<open>2^23 = 8388608\<close> slots, its load factor is
  below \<open>3 / 5\<close>.
\<close>

theorem load_factor_after_insert:
  assumes "reachable m"
  shows "MAX_LOAD_FACTOR = 5033165 / 8388608 \<and>
         (\<exists>m'. insert_hm m x = Some m' \<and> size_hm m' < bucket_count m' \<and>
            (bucket_count m' < 2 ^ 53 \<longrightarrow> load_factor m' < MAX_LOAD_FACTOR) \<and>
            (bucket_count m' \<le> 8388608 \<longrightarrow> load_factor m' < 3 / 5))"
proof -
  from assms have "invar m" by (rule reachable_invar)
  from insert_hm_returns [OF this, of x] obtain m' where
    m': "insert_hm m x = Some m'" "invar m'"
    by blast
  from invar_size [OF m'(2)] have "size_hm m' < bucket_count m'"
    by (simp add: bucket_count_def)
  with m' invar_load_factor [OF m'(2)] invar_load_factor_small [OF m'(2)] MAX_LOAD_FACTOR_eq
  show ?thesis by blast
qed

theorem load_factor_after_insert_witness:
  "reachable example_map \<and> MAX_LOAD_FACTOR = 5033165 / 8388608 \<and>
   (\<exists>m'. insert_hm example_map (5, 13) = Some m' \<and> size_hm m' < bucket_count m' \<and>
      bucket_count m' < 2 ^ 53 \<and> load_factor m' < MAX_LOAD_FACTOR \<and>
      bucket_count m' \<le> 8388608 \<and> load_factor m' < 3 / 5)"
proof -
  have new: "fst (5, 13) \<notin> fst ` set (to_list example_map)"
    by (simp add: example_map_def to_list_def)
  have fits: "load_below_max (size_hm example_map) (length (table example_map))"
    by (simp add: example_map_def size_hm_def load_below_max_simp)
  from insert_hm_new [OF reachable_invar [OF reachable_example] new] fits
  obtain m1 where m1: "insert_hm example_map (5, 13) = Some m1"
      "length (table m1) = length (table example_map)"
    by auto
  then have "bucket_count m1 = 37" by (simp add: bucket_count_def example_map_def)
  with load_factor_after_insert [OF reachable_example, of "(5, 13)"] m1(1) reachable_example
  show ?thesis by simp
qed

text \<open>
  C6 as stated fails in its first part.  In a fresh map that has received the keys
  \<open>0\<close>, \<dots>, \<open>13475201\<close>, which has \<open>22458671\<close> slots, the key \<open>13475202\<close> is new and
  \<open>(count + 1) / table_size\<close> is \<open>13475203 / 22458671\<close>, which is not below \<open>3 / 5\<close>; yet
  \<^verbatim>\<open>rehash_if_needed\<close> returns the map as it was, and the insertion leaves the number of
  slots as it was.
\<close>

theorem rehash_threshold_counterexample:
  "HashMap_range id (keys_upto 13475202) = Some big_map \<and>
   13475202 \<notin> fst ` set (to_list big_map) \<and>
   (3 / 5 :: rat) \<le> of_nat (size_hm big_map + 1) / of_nat (bucket_count big_map) \<and>
   rehash_if_needed [] big_map = Some big_map \<and>
   insert_hm big_map (13475202, ()) = Some big_map_next \<and>
   bucket_count big_map_next = bucket_count big_map"
  using big_map_new_key by (simp add: big_map_props big_map_next_props)

text \<open>
  C6, amended.  A fresh map has 37 slots.  For a reachable map \<open>m\<close> and a key that it does
  not hold, \<open>insert\<close> is \<^verbatim>\<open>rehash_if_needed\<close> followed by the placement of the new entry,
  which keeps the number of slots.  If the test of \<^verbatim>\<open>rehash_if_needed\<close> holds, the map
  goes through as it is.  If not, the new number of slots is the least prime that is at
  least twice the old one, and the rehash is the insertion, by \<open>insert\<close>, of the pairs of
  \<open>m\<close> in their iteration order into the emptied map with the new table; it returns a
  map with the iteration sequence of \<open>m\<close>.  For a table of fewer than \<open>2^31\<close> slots the
  test holds exactly if \<open>(count + 1) / table_size\<close> is below the \<^verbatim>\<open>float\<close>
  \<^verbatim>\<open>MAX_LOAD_FACTOR\<close>; for a table of at most \<open>2^23 = 8388608\<close> slots, exactly if it is
  below \<open>3 / 5\<close>.
\<close>

theorem growth_policy:
  assumes "reachable m" "fst x \<notin> fst ` set (to_list m)"
  shows "bucket_count (HashMap_init (hasher m)) = 37 \<and>
         (\<exists>m1 m'. rehash_if_needed [] m = Some m1 \<and> emplace_and_probe [] m1 x = Some m' \<and>
            insert_hm m x = Some m' \<and> to_list m1 = to_list m \<and>
            bucket_count m' = bucket_count m1 \<and>
            (if load_below_max (size_hm m) (bucket_count m) then m1 = m
             else prime_nat (bucket_count m1) \<and> 2 * bucket_count m \<le> bucket_count m1 \<and>
                  (\<forall>q. 2 * bucket_count m \<le> q \<and> q < bucket_count m1 \<longrightarrow> \<not> prime_nat q) \<and>
                  rehash_if_needed [] m =
                    for_each (\<lambda>x m'. insert_among (map fst (items m)) m' x) (to_list m)
                      (m\<lparr>items := [], table := replicate (bucket_count m1) None\<rparr>))) \<and>
         (bucket_count m < 2 ^ 31 \<longrightarrow>
            load_below_max (size_hm m) (bucket_count m) =
              ((of_nat (size_hm m + 1) :: rat) / of_nat (bucket_count m) < MAX_LOAD_FACTOR)) \<and>
         (bucket_count m \<le> 8388608 \<longrightarrow>
            load_below_max (size_hm m) (bucket_count m) =
              ((of_nat (size_hm m + 1) :: rat) / of_nat (bucket_count m) < 3 / 5))"
proof -
  let ?n = "bucket_count m"
  let ?k = "size_hm m + 1"
  from assms(1) have inv: "invar m" by (rule reachable_invar)
  then have n: "prime_nat ?n" "START_BUCKET_COUNT \<le> ?n"
    by (simp_all add: invar_def bucket_count_def)
  then have pos: "0 < ?n" by (simp add: START_BUCKET_COUNT_def)
  have init: "bucket_count (HashMap_init (hasher m)) = 37"
    by (simp add: bucket_count_def HashMap_init_def START_BUCKET_COUNT_def)
  have float: "load_below_max (size_hm m) ?n = ((of_nat ?k :: rat) / of_nat ?n < MAX_LOAD_FACTOR)"
    if "?n < 2 ^ 31"
    unfolding ratio_below_MAX [OF pos] using load_below_max_iff [OF that] by simp
  have exact: "load_below_max (size_hm m) ?n = ((of_nat ?k :: rat) / of_nat ?n < 3 / 5)"
    if le: "?n \<le> 8388608"
  proof -
    from le have "?n < 2 ^ 31" by simp
    from load_below_max_iff [OF this, of "size_hm m"] small_table_threshold [OF n le, of ?k]
    show ?thesis unfolding ratio_below_three_fifths [OF pos] by simp
  qed
  from insert_hm_new_detail [OF inv assms(2)] init float exact show ?thesis
    by blast
qed

theorem growth_policy_witness:
  "reachable example_map \<and> fst (5, 13) \<notin> fst ` set (to_list example_map) \<and>
   load_below_max (size_hm example_map) (bucket_count example_map) \<and>
   rehash_if_needed [] example_map = Some example_map \<and>
   (\<exists>m'. insert_hm example_map (5, 13) = Some m' \<and>
      bucket_count m' = bucket_count example_map) \<and>
   reachable full_map \<and> fst (22, ()) \<notin> fst ` set (to_list full_map) \<and>
   bucket_count full_map = 37 \<and> bucket_count (HashMap_init (hasher full_map)) = 37 \<and>
   \<not> load_below_max (size_hm full_map) (bucket_count full_map) \<and>
   \<not> (of_nat (size_hm full_map + 1) :: rat) / of_nat (bucket_count full_map) < 3 / 5 \<and>
   (\<exists>m1 m'. rehash_if_needed [] full_map = Some m1 \<and> insert_hm full_map (22, ()) = Some m' \<and>
      to_list m1 = to_list full_map \<and> bucket_count m' = bucket_count m1 \<and>
      prime_nat (bucket_count m1) \<and> 2 * bucket_count full_map \<le> bucket_count m1 \<and>
      rehash_if_needed [] full_map =
        for_each (\<lambda>x m'. insert_among (map fst (items full_map)) m' x) (to_list full_map)
          (full_map\<lparr>items := [], table := replicate (bucket_count m1) None\<rparr>))"
proof -
  have new: "fst (5, 13) \<notin> fst ` set (to_list example_map)"
    by (simp add: example_map_def to_list_def)
  have fits: "load_below_max (size_hm example_map) (bucket_count example_map)"
    by (simp add: example_map_def size_hm_def bucket_count_def load_below_max_simp)
  have new': "fst (22, ()) \<notin> fst ` set (to_list full_map)"
    by (simp add: full_map_props keys_upto_props)
  have full: "\<not> load_below_max (size_hm full_map) (bucket_count full_map)"
    by (simp add: full_map_props load_below_max_simp)
  from growth_policy [OF reachable_example new] fits
  have 1: "rehash_if_needed [] example_map = Some example_map \<and>
      (\<exists>m'. insert_hm example_map (5, 13) = Some m' \<and>
         bucket_count m' = bucket_count example_map)"
    by auto
  from growth_policy [OF reachable_full_map new'] full
  have 2: "bucket_count (HashMap_init (hasher full_map)) = 37 \<and>
     \<not> (of_nat (size_hm full_map + 1) :: rat) / of_nat (bucket_count full_map) < 3 / 5 \<and>
     (\<exists>m1 m'. rehash_if_needed [] full_map = Some m1 \<and> insert_hm full_map (22, ()) = Some m' \<and>
      to_list m1 = to_list full_map \<and> bucket_count m' = bucket_count m1 \<and>
      prime_nat (bucket_count m1) \<and> 2 * bucket_count full_map \<le> bucket_count m1 \<and>
      rehash_if_needed [] full_map =
        for_each (\<lambda>x m'. insert_among (map fst (items full_map)) m' x) (to_list full_map)
          (full_map\<lparr>items := [], table := replicate (bucket_count m1) None\<rparr>))"
    by (auto simp: full_map_props(5))
  from 1 2 new new' fits full reachable_example reachable_full_map full_map_props(5)
  show ?thesis by blast
qed

end
